theory Spec2Isabelle
  imports Complex_Main "HOL-Library.AList" "HOL-Library.Multiset"
    "HOL-Library.Char_ord" "HOL-Library.List_Lexorder"
begin

section \<open>Values, errors and statement trees\<close>

text \<open>
  The engine stores Python values of five kinds: \<open>None\<close>, \<open>int\<close>, \<open>float\<close>,
  \<open>bool\<close> and \<open>str\<close>. A float is modelled by the real number it denotes (finite
  floats; NaN and the infinities are outside the model), a string by its character
  list.
\<close>

datatype pyval = VNull | VInt int | VFloat real | VBool bool | VStr string

text \<open>The exceptions of \<open>utils/exceptions.py\<close> and the Python built-ins the core can raise.\<close>

datatype data_type = INTEGER | FLOAT | VARCHAR | TEXT | BOOLEAN

datatype column_constraint = PRIMARY_KEY | UNIQUE | NOT_NULL

datatype error =
    ColumnNotFoundError string "string option"
  | DuplicateKeyError string pyval
  | ConstraintViolationError string
  | TypeValidationError string string pyval
  | InvalidIdentifierError string
  | TypeError
  | KeyError string
  | ValueError

text \<open>\<open>parser/ast.py\<close>: expressions and conditions.\<close>

datatype comparison_op = EQ | NE | LT | GT | LTE | GTE

datatype logical_op = AND | OR

datatype expr = ColumnRef string "string option" | Literal pyval string

datatype condition =
    Comparison expr comparison_op expr
  | LogicalCondition condition logical_op condition

text \<open>
  A row handed to a consumer is a Python dict from column names to values. It is kept
  as an association list in the dict's insertion order; \<open>map_of\<close> is the lookup.
\<close>

type_synonym row = "(string \<times> pyval) list"

subsection \<open>Python comparison of values\<close>

text \<open>
  In Python \<open>bool\<close> is a subtype of \<open>int\<close>, and \<open>int\<close> and \<open>float\<close> compare by
  numeric value: \<open>1 == 1.0 == True\<close>. Strings compare with strings only; \<open>None\<close>
  equals only itself. An ordering comparison between a string and a number, or with
  \<open>None\<close>, raises \<open>TypeError\<close>.
\<close>

fun py_num :: "pyval \<Rightarrow> real option" where
  "py_num (VInt i) = Some (of_int i)"
| "py_num (VFloat r) = Some r"
| "py_num (VBool b) = Some (if b then 1 else 0)"
| "py_num VNull = None"
| "py_num (VStr s) = None"

definition py_eq :: "pyval \<Rightarrow> pyval \<Rightarrow> bool" where
  "py_eq a b =
     (case py_num a of
        Some x \<Rightarrow> (case py_num b of Some y \<Rightarrow> x = y | None \<Rightarrow> False)
      | None \<Rightarrow> (case py_num b of Some y \<Rightarrow> False | None \<Rightarrow> a = b))"

definition py_lt :: "pyval \<Rightarrow> pyval \<Rightarrow> error + bool" where
  "py_lt a b =
     (case (py_num a, py_num b) of
        (Some x, Some y) \<Rightarrow> Inr (x < y)
      | _ \<Rightarrow> (case (a, b) of (VStr s, VStr t) \<Rightarrow> Inr (s < t) | _ \<Rightarrow> Inl TypeError))"

definition py_le :: "pyval \<Rightarrow> pyval \<Rightarrow> error + bool" where
  "py_le a b =
     (case (py_num a, py_num b) of
        (Some x, Some y) \<Rightarrow> Inr (x \<le> y)
      | _ \<Rightarrow> (case (a, b) of (VStr s, VStr t) \<Rightarrow> Inr (s \<le> t) | _ \<Rightarrow> Inl TypeError))"

text \<open>\<open>row.get(key)\<close>: the value under a key, \<open>None\<close> when the key is missing.\<close>

definition row_get :: "row \<Rightarrow> string \<Rightarrow> pyval" where
  "row_get r k = (case map_of r k of None \<Rightarrow> VNull | Some v \<Rightarrow> v)"

section \<open>Row utilities (\<open>utils/row_utils.py\<close>)\<close>

text \<open>
  \<open>get_column_value\<close>: the qualified key \<open>table.column\<close> is tried first when a
  (non-empty) table name is given, then the bare key. \<open>None\<close> stands for the
  \<open>KeyError\<close> of the source.
\<close>

definition get_column_value :: "row \<Rightarrow> string \<Rightarrow> string option \<Rightarrow> pyval option" where
  "get_column_value r column_name table_name =
     (case (case table_name of
              None \<Rightarrow> None
            | Some tn \<Rightarrow> if tn = [] then None else map_of r (tn @ ''.'' @ column_name)) of
        Some v \<Rightarrow> Some v
      | None \<Rightarrow> map_of r column_name)"

text \<open>\<open>project_columns\<close>: \<open>{col: row[col] for col in columns if col in row}\<close>.\<close>

definition project_columns :: "row \<Rightarrow> string list \<Rightarrow> row" where
  "project_columns r cols =
     fold (\<lambda>col acc. case map_of r col of None \<Rightarrow> acc | Some v \<Rightarrow> AList.update col v acc)
       cols []"

section \<open>Condition evaluator (\<open>executor/evaluator.py\<close>)\<close>

definition get_value :: "expr \<Rightarrow> row \<Rightarrow> error + pyval" where
  "get_value e r =
     (case e of
        ColumnRef column_name table_name \<Rightarrow>
          (case get_column_value r column_name table_name of
             Some v \<Rightarrow> Inr v
           | None \<Rightarrow> Inl (ColumnNotFoundError column_name None))
      | Literal v ty \<Rightarrow> Inr v)"

definition evaluate_comparison :: "expr \<Rightarrow> comparison_op \<Rightarrow> expr \<Rightarrow> row \<Rightarrow> error + bool" where
  "evaluate_comparison left op right r =
     (case get_value left r of
        Inl e \<Rightarrow> Inl e
      | Inr left_value \<Rightarrow>
          (case get_value right r of
             Inl e \<Rightarrow> Inl e
           | Inr right_value \<Rightarrow>
               if left_value = VNull \<or> right_value = VNull then
                 (if op = NE then Inr (\<not> py_eq left_value right_value) else Inr False)
               else
                 (case op of
                    EQ \<Rightarrow> Inr (py_eq left_value right_value)
                  | NE \<Rightarrow> Inr (\<not> py_eq left_value right_value)
                  | LT \<Rightarrow> py_lt left_value right_value
                  | GT \<Rightarrow> py_lt right_value left_value
                  | LTE \<Rightarrow> py_le left_value right_value
                  | GTE \<Rightarrow> py_le right_value left_value)))"

text \<open>
  \<open>evaluate\<close> with \<open>_evaluate_logical\<close> inlined: the left operand first, the right one
  only when the left result does not decide.
\<close>

fun evaluate :: "condition \<Rightarrow> row \<Rightarrow> error + bool" where
  "evaluate (Comparison left op right) r = evaluate_comparison left op right r"
| "evaluate (LogicalCondition left op right) r =
     (case evaluate left r of
        Inl e \<Rightarrow> Inl e
      | Inr left_result \<Rightarrow>
          (case op of
             AND \<Rightarrow> if \<not> left_result then Inr False else evaluate right r
           | OR \<Rightarrow> if left_result then Inr True else evaluate right r))"

text \<open>
  The column references that an evaluation looks up, in order. A comparison resolves
  its left operand, and its right operand only if the left one resolved; a logical
  node visits its right operand only if the left one returned a result that does not
  decide. This is the evaluator's control flow with every lookup recorded.
\<close>

fun expr_refs :: "expr \<Rightarrow> (string \<times> string option) list" where
  "expr_refs (ColumnRef column_name table_name) = [(column_name, table_name)]"
| "expr_refs (Literal v ty) = []"

fun reached :: "condition \<Rightarrow> row \<Rightarrow> (string \<times> string option) list" where
  "reached (Comparison left op right) r =
     expr_refs left @ (case get_value left r of Inl e \<Rightarrow> [] | Inr v \<Rightarrow> expr_refs right)"
| "reached (LogicalCondition left op right) r =
     reached left r @
       (case evaluate left r of
          Inl e \<Rightarrow> []
        | Inr left_result \<Rightarrow>
            (case op of
               AND \<Rightarrow> if \<not> left_result then [] else reached right r
             | OR \<Rightarrow> if left_result then [] else reached right r))"

text \<open>
  A column reference is absent from a row when the row has no key for it: the bare
  column name is not a key, and, when the reference carries a table name, neither is
  the qualified name \<open>table.column\<close>.
\<close>

definition absent :: "row \<Rightarrow> string \<times> string option \<Rightarrow> bool" where
  "absent r ref =
     (fst ref \<notin> set (map fst r)
      \<and> (case snd ref of
            None \<Rightarrow> True
          | Some tn \<Rightarrow> tn = [] \<or> tn @ ''.'' @ fst ref \<notin> set (map fst r)))"

section \<open>Type validation (\<open>utils/validators.py\<close>, \<open>storage/types.py\<close>)\<close>

text \<open>
  \<open>str\<close> of an integer, for the two messages that \<open>validate_value_for_type\<close>
  formats.
\<close>

fun str_nat :: "nat \<Rightarrow> string" where
  "str_nat n =
     (if n < 10 then [char_of (48 + n)] else str_nat (n div 10) @ [char_of (48 + n mod 10)])"

declare str_nat.simps [simp del]

definition py_str :: "int \<Rightarrow> string" where
  "py_str i = (if i < 0 then CHR ''-'' # str_nat (nat (- i)) else str_nat (nat i))"

text \<open>\<open>DataType.value\<close>: the string of an enumeration member.\<close>

fun data_type_value :: "data_type \<Rightarrow> string" where
  "data_type_value INTEGER = ''INTEGER''"
| "data_type_value FLOAT = ''FLOAT''"
| "data_type_value VARCHAR = ''VARCHAR''"
| "data_type_value TEXT = ''TEXT''"
| "data_type_value BOOLEAN = ''BOOLEAN''"

text \<open>
  \<open>validate_value_for_type\<close>, called by \<open>Column.validate\<close> with the value of the
  column's \<open>DataType\<close>; the enumeration replaces the type string, so the aliases and
  the branch for an unknown type name do not arise. The error carries an empty column
  name, as in the source; for a string longer than a (non-zero) \<open>max_length\<close> it
  carries \<open>VARCHAR(n)\<close> and a message in place of the value.
\<close>

definition validate_value_for_type :: "pyval \<Rightarrow> data_type \<Rightarrow> int option \<Rightarrow> error + bool" where
  "validate_value_for_type v dt max_len =
     (if v = VNull then Inr True
      else case dt of
        INTEGER \<Rightarrow>
          (case v of VInt i \<Rightarrow> Inr True
           | _ \<Rightarrow> Inl (TypeValidationError [] (data_type_value dt) v))
      | FLOAT \<Rightarrow>
          (case v of VInt i \<Rightarrow> Inr True | VFloat x \<Rightarrow> Inr True
           | _ \<Rightarrow> Inl (TypeValidationError [] (data_type_value dt) v))
      | BOOLEAN \<Rightarrow>
          (case v of VBool b \<Rightarrow> Inr True
           | _ \<Rightarrow> Inl (TypeValidationError [] (data_type_value dt) v))
      | VARCHAR \<Rightarrow>
          (case v of
             VStr s \<Rightarrow>
               (case max_len of
                  None \<Rightarrow> Inr True
                | Some m \<Rightarrow>
                    if m \<noteq> 0 \<and> int (length s) > m then
                      Inl (TypeValidationError []
                             (''VARCHAR('' @ py_str m @ '')'')
                             (VStr (''string too long ('' @ py_str (int (length s)) @ '' > ''
                                      @ py_str m @ '')'')))
                    else Inr True)
           | _ \<Rightarrow> Inl (TypeValidationError [] (data_type_value dt) v))
      | TEXT \<Rightarrow>
          (case v of VStr s \<Rightarrow> Inr True
           | _ \<Rightarrow> Inl (TypeValidationError [] (data_type_value dt) v)))"

record column =
  name :: string
  data_type :: data_type
  max_length :: "int option"
  constraints :: "column_constraint set"

definition is_primary_key :: "column \<Rightarrow> bool" where
  "is_primary_key c = (PRIMARY_KEY \<in> constraints c)"

definition is_unique :: "column \<Rightarrow> bool" where
  "is_unique c = (UNIQUE \<in> constraints c \<or> is_primary_key c)"

definition is_not_null :: "column \<Rightarrow> bool" where
  "is_not_null c = (NOT_NULL \<in> constraints c \<or> is_primary_key c)"

text \<open>
  \<open>Column.validate\<close>: \<open>None\<close> stands for returning normally. The table always passes
  the column's own name as \<open>column_name_for_error\<close>.
\<close>

definition validate :: "column \<Rightarrow> pyval \<Rightarrow> string \<Rightarrow> error option" where
  "validate c v column_name_for_error =
     (let col_name = (if column_name_for_error \<noteq> [] then column_name_for_error else name c) in
      if v = VNull then
        (if is_not_null c then Some (ConstraintViolationError col_name) else None)
      else
        (case validate_value_for_type v (data_type c) (max_length c) of
           Inl e \<Rightarrow> Some (TypeValidationError col_name (data_type_value (data_type c)) v)
         | Inr ok \<Rightarrow> None))"

subsection \<open>Identifiers and column construction\<close>

definition RESERVED_WORDS :: "string list" where
  "RESERVED_WORDS =
     [''SELECT'', ''FROM'', ''WHERE'', ''INSERT'', ''UPDATE'', ''DELETE'',
      ''CREATE'', ''DROP'', ''TABLE'', ''INDEX'', ''INTO'', ''VALUES'',
      ''SET'', ''AND'', ''OR'', ''NOT'', ''NULL'', ''PRIMARY'', ''KEY'',
      ''UNIQUE'', ''INNER'', ''JOIN'', ''ON'', ''AS'', ''INTEGER'', ''INT'',
      ''VARCHAR'', ''TEXT'', ''BOOLEAN'', ''FLOAT'', ''REAL'', ''TRUE'', ''FALSE'']"

text \<open>\<open>str.upper\<close> on the ASCII letters, which are the only ones an accepted name has.\<close>

definition upper_char :: "char \<Rightarrow> char" where
  "upper_char c =
     (if CHR ''a'' \<le> c \<and> c \<le> CHR ''z'' then char_of (of_char c - (32::nat)) else c)"

definition ident_start :: "char \<Rightarrow> bool" where
  "ident_start c =
     ((CHR ''a'' \<le> c \<and> c \<le> CHR ''z'') \<or> (CHR ''A'' \<le> c \<and> c \<le> CHR ''Z'') \<or> c = CHR ''_'')"

definition ident_char :: "char \<Rightarrow> bool" where
  "ident_char c = (ident_start c \<or> (CHR ''0'' \<le> c \<and> c \<le> CHR ''9''))"

text \<open>
  \<open>re.match(r'^[a-zA-Z_][a-zA-Z0-9_]*$', name)\<close>: Python's \<open>$\<close> also matches just
  before a newline that ends the string.
\<close>

definition ident_match :: "string \<Rightarrow> bool" where
  "ident_match s =
     (let body = (if s \<noteq> [] \<and> last s = CHR 0x0A then butlast s else s)
      in body \<noteq> [] \<and> ident_start (hd body) \<and> list_all ident_char (tl body))"

definition validate_identifier :: "string \<Rightarrow> error + bool" where
  "validate_identifier nm =
     (if nm = [] then Inl (InvalidIdentifierError nm)
      else if length nm > 64 then Inl (InvalidIdentifierError nm)
      else if map upper_char nm \<in> set RESERVED_WORDS then Inl (InvalidIdentifierError nm)
      else if \<not> ident_match nm then Inl (InvalidIdentifierError nm)
      else Inr True)"

text \<open>\<open>Column.__init__\<close>: the name is validated, absent constraints are the empty set.\<close>

definition Column :: "string \<Rightarrow> data_type \<Rightarrow> int option \<Rightarrow> column_constraint set option
    \<Rightarrow> error + column" where
  "Column nm dt max_len cs =
     (case validate_identifier nm of
        Inl e \<Rightarrow> Inl e
      | Inr ok \<Rightarrow>
          Inr \<lparr>name = nm, data_type = dt, max_length = max_len,
               constraints = (case cs of None \<Rightarrow> {} | Some c \<Rightarrow> c)\<rparr>)"


section \<open>Hash index (\<open>storage/index.py\<close>)\<close>

text \<open>
  A Python dict finds a key by hash and \<open>==\<close>, so \<open>1\<close>, \<open>1.0\<close> and \<open>True\<close> are
  one key. The dict of the index is an association list in insertion order whose keys
  are compared with \<open>py_eq\<close>; an existing key keeps its first spelling.
\<close>

fun dict_get :: "(pyval \<times> 'a) list \<Rightarrow> pyval \<Rightarrow> 'a option" where
  "dict_get [] k = None"
| "dict_get ((k', v) # d) k = (if py_eq k' k then Some v else dict_get d k)"

fun dict_set :: "(pyval \<times> 'a) list \<Rightarrow> pyval \<Rightarrow> 'a \<Rightarrow> (pyval \<times> 'a) list" where
  "dict_set [] k v = [(k, v)]"
| "dict_set ((k', v') # d) k v =
     (if py_eq k' k then (k', v) # d else (k', v') # dict_set d k v)"

fun dict_del :: "(pyval \<times> 'a) list \<Rightarrow> pyval \<Rightarrow> (pyval \<times> 'a) list" where
  "dict_del [] k = []"
| "dict_del ((k', v') # d) k = (if py_eq k' k then d else (k', v') # dict_del d k)"

text \<open>
  \<open>list.remove(x)\<close> takes out the first element that \<open>==\<close> \<open>x\<close>; \<open>None\<close> stands
  for its \<open>ValueError\<close> when there is none.
\<close>

fun list_remove :: "pyval list \<Rightarrow> pyval \<Rightarrow> pyval list option" where
  "list_remove [] x = None"
| "list_remove (y # ys) x =
     (if py_eq y x then Some ys else map_option ((#) y) (list_remove ys x))"

text \<open>
  A row identifier is whatever Python value the caller passes or a row holds under
  \<open>_row_id\<close>; the identifiers the table itself hands out are integers.
\<close>

record hash_index =
  hi_column_name :: string
  hi_index :: "(pyval \<times> pyval list) list"

definition HashIndex :: "string \<Rightarrow> hash_index" where
  "HashIndex column_name = \<lparr>hi_column_name = column_name, hi_index = []\<rparr>"

text \<open>\<open>insert\<close>: \<open>self._index[key].append(row_id)\<close> on a \<open>defaultdict(list)\<close>.\<close>

definition HashIndex_insert :: "hash_index \<Rightarrow> pyval \<Rightarrow> pyval \<Rightarrow> hash_index" where
  "HashIndex_insert idx key row_id =
     (if key \<noteq> VNull then
        idx\<lparr>hi_index :=
          (case dict_get (hi_index idx) key of
             None \<Rightarrow> dict_set (hi_index idx) key [row_id]
           | Some ids \<Rightarrow> dict_set (hi_index idx) key (ids @ [row_id]))\<rparr>
      else idx)"

definition HashIndex_search :: "hash_index \<Rightarrow> pyval \<Rightarrow> pyval list" where
  "HashIndex_search idx key =
     (if key = VNull then []
      else case dict_get (hi_index idx) key of None \<Rightarrow> [] | Some ids \<Rightarrow> ids)"

text \<open>
  \<open>delete\<close>: when \<open>list.remove\<close> raises \<open>ValueError\<close> the handler passes, leaving
  the entry as it was.
\<close>

definition HashIndex_delete :: "hash_index \<Rightarrow> pyval \<Rightarrow> pyval \<Rightarrow> hash_index" where
  "HashIndex_delete idx key row_id =
     (if key \<noteq> VNull then
        (case dict_get (hi_index idx) key of
           None \<Rightarrow> idx
         | Some ids \<Rightarrow>
             (case list_remove ids row_id of
                None \<Rightarrow> idx
              | Some ids' \<Rightarrow>
                  if ids' = [] then idx\<lparr>hi_index := dict_del (hi_index idx) key\<rparr>
                  else idx\<lparr>hi_index := dict_set (hi_index idx) key ids'\<rparr>))
      else idx)"

definition HashIndex_len :: "hash_index \<Rightarrow> nat" where
  "HashIndex_len idx = length (hi_index idx)"

section \<open>Table (\<open>storage/table.py\<close>)\<close>

text \<open>
  The fields of \<open>Table\<close>, without their leading underscores. A stored row is a dict
  that holds the column values and, under the key \<open>_row_id\<close>, the row's identifier;
  a column may itself be named \<open>_row_id\<close>, and then the two share the key. The set of
  deleted identifiers is a Python set: membership is by \<open>==\<close>.
\<close>

record table =
  table_name :: string
  columns :: "(string \<times> column) list"
  column_order :: "string list"
  primary_key :: "string option"
  rows :: "row list"
  next_row_id :: nat
  deleted_row_ids :: "pyval set"
  indexes :: "(string \<times> hash_index) list"

definition py_in :: "pyval \<Rightarrow> pyval set \<Rightarrow> bool" where
  "py_in v s = (\<exists>d \<in> s. py_eq d v)"

text \<open>\<open>_strip_internal_id\<close>: \<open>{k: v for k, v in row.items() if k != '_row_id'}\<close>.\<close>

definition strip_internal_id :: "row \<Rightarrow> row" where
  "strip_internal_id r = filter (\<lambda>kv. fst kv \<noteq> ''_row_id'') r"

text \<open>
  \<open>create_index\<close>. The new index is filled from the live rows before it is attached;
  \<open>row[column_name]\<close> raises \<open>KeyError\<close> on a row without the column. An operation
  returns the table as the call leaves it together with its outcome.
\<close>

fun populate_index :: "hash_index \<Rightarrow> row list \<Rightarrow> pyval set \<Rightarrow> string
    \<Rightarrow> error + hash_index" where
  "populate_index idx [] deleted column_name = Inr idx"
| "populate_index idx (r # rs) deleted column_name =
     (case map_of r ''_row_id'' of
        None \<Rightarrow> populate_index idx rs deleted column_name
      | Some row_id \<Rightarrow>
          if \<not> py_in row_id deleted then
            (case map_of r column_name of
               None \<Rightarrow> Inl (KeyError column_name)
             | Some v \<Rightarrow> populate_index (HashIndex_insert idx v row_id) rs deleted column_name)
          else populate_index idx rs deleted column_name)"

definition create_index :: "table \<Rightarrow> string \<Rightarrow> table \<times> error option" where
  "create_index t column_name =
     (if map_of (columns t) column_name = None then
        (t, Some (ColumnNotFoundError column_name (Some (table_name t))))
      else if map_of (indexes t) column_name \<noteq> None then (t, None)
      else
        (case populate_index (HashIndex column_name) (rows t) (deleted_row_ids t) column_name of
           Inl e \<Rightarrow> (t, Some e)
         | Inr idx \<Rightarrow> (t\<lparr>indexes := AList.update column_name idx (indexes t)\<rparr>, None)))"

definition drop_index :: "table \<Rightarrow> string \<Rightarrow> table \<times> error option" where
  "drop_index t column_name =
     (case map_of (columns t) column_name of
        Some col \<Rightarrow>
          if is_primary_key col \<or> is_unique col then (t, Some ValueError)
          else (t\<lparr>indexes := AList.delete column_name (indexes t)\<rparr>, None)
      | None \<Rightarrow> (t\<lparr>indexes := AList.delete column_name (indexes t)\<rparr>, None))"

text \<open>
  \<open>Table.__init__\<close>. The dict comprehension keeps one entry per column name, at the
  place of the first and with the value of the last column of that name; the primary
  key and the column order are taken from the list.
\<close>

fun init_indexes :: "column list \<Rightarrow> table \<Rightarrow> error + table" where
  "init_indexes [] t = Inr t"
| "init_indexes (col # cols) t =
     (if is_primary_key col \<or> is_unique col then
        (case create_index t (name col) of
           (t', Some e) \<Rightarrow> Inl e
         | (t', None) \<Rightarrow> init_indexes cols t')
      else init_indexes cols t)"

definition Table :: "string \<Rightarrow> column list \<Rightarrow> error + table" where
  "Table nm cols =
     (if cols = [] then Inl ValueError
      else
        (let pk_columns = filter is_primary_key cols in
         if length pk_columns > 1 then Inl ValueError
         else
           init_indexes cols
             \<lparr>table_name = nm,
              columns = fold (\<lambda>col d. AList.update (name col) col d) cols [],
              column_order = map name cols,
              primary_key = (case pk_columns of [] \<Rightarrow> None | col # rest \<Rightarrow> Some (name col)),
              rows = [],
              next_row_id = 0,
              deleted_row_ids = {},
              indexes = []\<rparr>))"

definition find_by_index :: "table \<Rightarrow> string \<Rightarrow> pyval \<Rightarrow> pyval list option" where
  "find_by_index t column_name v =
     (case map_of (indexes t) column_name of
        None \<Rightarrow> None
      | Some idx \<Rightarrow> Some (HashIndex_search idx v))"

text \<open>
  \<open>insert_row\<close>, in the order of the source: unknown columns, the complete row with
  every value validated, the primary key, the other unique columns, and only then the
  identifier, which is written into the complete row under \<open>_row_id\<close>, the row and
  the indexes, which read the row after that write.
\<close>

fun build_complete_row :: "(string \<times> column) list \<Rightarrow> row \<Rightarrow> error + row" where
  "build_complete_row [] row_data = Inr []"
| "build_complete_row ((col_name, col) # cols) row_data =
     (let v = row_get row_data col_name in
      case validate col v col_name of
        Some e \<Rightarrow> Inl e
      | None \<Rightarrow>
          (case build_complete_row cols row_data of
             Inl e \<Rightarrow> Inl e
           | Inr complete_row \<Rightarrow> Inr ((col_name, v) # complete_row)))"

definition check_primary_key :: "table \<Rightarrow> row \<Rightarrow> error option" where
  "check_primary_key t complete_row =
     (case primary_key t of
        None \<Rightarrow> None
      | Some pk \<Rightarrow>
          if pk = [] then None
          else
            (case map_of complete_row pk of
               None \<Rightarrow> Some (KeyError pk)
             | Some pk_value \<Rightarrow>
                 if pk_value \<noteq> VNull then
                   (case find_by_index t pk pk_value of
                      Some (x # xs) \<Rightarrow> Some (DuplicateKeyError pk pk_value)
                    | _ \<Rightarrow> None)
                 else None))"

fun check_unique :: "table \<Rightarrow> (string \<times> column) list \<Rightarrow> row \<Rightarrow> error option" where
  "check_unique t [] complete_row = None"
| "check_unique t ((col_name, col) # cols) complete_row =
     (if is_unique col \<and> \<not> is_primary_key col then
        (case map_of complete_row col_name of
           None \<Rightarrow> Some (KeyError col_name)
         | Some v \<Rightarrow>
             if v \<noteq> VNull then
               (case find_by_index t col_name v of
                  Some (x # xs) \<Rightarrow> Some (DuplicateKeyError col_name v)
                | _ \<Rightarrow> check_unique t cols complete_row)
             else check_unique t cols complete_row)
      else check_unique t cols complete_row)"

fun insert_into_indexes :: "(string \<times> hash_index) list \<Rightarrow> row \<Rightarrow> pyval
    \<Rightarrow> (string \<times> hash_index) list \<times> error option" where
  "insert_into_indexes [] complete_row row_id = ([], None)"
| "insert_into_indexes ((col_name, idx) # ixs) complete_row row_id =
     (case map_of complete_row col_name of
        None \<Rightarrow> ((col_name, idx) # ixs, Some (KeyError col_name))
      | Some v \<Rightarrow>
          (case insert_into_indexes ixs complete_row row_id of
             (ixs', e) \<Rightarrow> ((col_name, HashIndex_insert idx v row_id) # ixs', e)))"

definition insert_row :: "table \<Rightarrow> row \<Rightarrow> table \<times> (error + nat)" where
  "insert_row t row_data =
     (case find (\<lambda>col_name. map_of (columns t) col_name = None) (map fst row_data) of
        Some col_name \<Rightarrow> (t, Inl (ColumnNotFoundError col_name (Some (table_name t))))
      | None \<Rightarrow>
          (case build_complete_row (columns t) row_data of
             Inl e \<Rightarrow> (t, Inl e)
           | Inr complete_row \<Rightarrow>
               (case check_primary_key t complete_row of
                  Some e \<Rightarrow> (t, Inl e)
                | None \<Rightarrow>
                    (case check_unique t (columns t) complete_row of
                       Some e \<Rightarrow> (t, Inl e)
                     | None \<Rightarrow>
                         (let row_id = next_row_id t;
                              t1 = t\<lparr>next_row_id := next_row_id t + 1\<rparr>;
                              stored_row = AList.update ''_row_id'' (VInt (int row_id)) complete_row;
                              t2 = t1\<lparr>rows := rows t1 @ [stored_row]\<rparr>
                          in case insert_into_indexes (indexes t2) stored_row (VInt (int row_id)) of
                               (ixs, Some e) \<Rightarrow> (t2\<lparr>indexes := ixs\<rparr>, Inl e)
                             | (ixs, None) \<Rightarrow> (t2\<lparr>indexes := ixs\<rparr>, Inr row_id))))))"

text \<open>
  The test by which \<open>get_row\<close>, \<open>update_row\<close> and \<open>delete_row\<close> pick a stored row:
  \<open>row.get('_row_id') == row_id and row_id not in self._deleted_row_ids\<close>. Each takes
  the first stored row that passes it.
\<close>

definition is_live_row :: "table \<Rightarrow> pyval \<Rightarrow> row \<Rightarrow> bool" where
  "is_live_row t row_id r =
     (py_eq (row_get r ''_row_id'') row_id \<and> \<not> py_in row_id (deleted_row_ids t))"

definition get_row :: "table \<Rightarrow> pyval \<Rightarrow> row option" where
  "get_row t row_id = map_option strip_internal_id (find (is_live_row t row_id) (rows t))"

fun find_row_index :: "table \<Rightarrow> pyval \<Rightarrow> row list \<Rightarrow> nat \<Rightarrow> nat option" where
  "find_row_index t row_id [] i = None"
| "find_row_index t row_id (r # rs) i =
     (if is_live_row t row_id r then Some i else find_row_index t row_id rs (i + 1))"

text \<open>
  \<open>update_row\<close>: every assignment is checked against the table as it stands, then
  all are applied to a copy of the row and to the indexes, and the copy is stored.
\<close>

fun validate_updates :: "table \<Rightarrow> pyval \<Rightarrow> row \<Rightarrow> error option" where
  "validate_updates t row_id [] = None"
| "validate_updates t row_id ((col_name, new_value) # updates) =
     (case map_of (columns t) col_name of
        None \<Rightarrow> Some (ColumnNotFoundError col_name (Some (table_name t)))
      | Some col \<Rightarrow>
          if is_primary_key col then Some (ConstraintViolationError col_name)
          else
            (case validate col new_value col_name of
               Some e \<Rightarrow> Some e
             | None \<Rightarrow>
                 if is_unique col \<and> new_value \<noteq> VNull then
                   (case find_by_index t col_name new_value of
                      Some (x # xs) \<Rightarrow>
                        if \<not> py_eq x row_id then Some (DuplicateKeyError col_name new_value)
                        else validate_updates t row_id updates
                    | _ \<Rightarrow> validate_updates t row_id updates)
                 else validate_updates t row_id updates))"

fun apply_updates :: "row \<Rightarrow> pyval \<Rightarrow> row \<Rightarrow> row \<Rightarrow> (string \<times> hash_index) list
    \<Rightarrow> (row \<times> (string \<times> hash_index) list) \<times> error option" where
  "apply_updates old_row row_id [] new_row ixs = ((new_row, ixs), None)"
| "apply_updates old_row row_id ((col_name, new_value) # updates) new_row ixs =
     (case map_of old_row col_name of
        None \<Rightarrow> ((new_row, ixs), Some (KeyError col_name))
      | Some old_value \<Rightarrow>
          apply_updates old_row row_id updates
            (AList.update col_name new_value new_row)
            (case map_of ixs col_name of
               None \<Rightarrow> ixs
             | Some idx \<Rightarrow>
                 AList.update col_name
                   (HashIndex_insert (HashIndex_delete idx old_value row_id) new_value row_id)
                   ixs))"

definition update_row :: "table \<Rightarrow> pyval \<Rightarrow> row \<Rightarrow> table \<times> (error + bool)" where
  "update_row t row_id updates =
     (case find_row_index t row_id (rows t) 0 of
        None \<Rightarrow> (t, Inr False)
      | Some row_index \<Rightarrow>
          (let old_row = rows t ! row_index in
           case validate_updates t row_id updates of
             Some e \<Rightarrow> (t, Inl e)
           | None \<Rightarrow>
               (case apply_updates old_row row_id updates old_row (indexes t) of
                  ((new_row, ixs), Some e) \<Rightarrow> (t\<lparr>indexes := ixs\<rparr>, Inl e)
                | ((new_row, ixs), None) \<Rightarrow>
                    (t\<lparr>indexes := ixs, rows := (rows t)[row_index := new_row]\<rparr>, Inr True))))"

fun delete_from_indexes :: "(string \<times> hash_index) list \<Rightarrow> row \<Rightarrow> pyval
    \<Rightarrow> (string \<times> hash_index) list \<times> error option" where
  "delete_from_indexes [] r row_id = ([], None)"
| "delete_from_indexes ((col_name, idx) # ixs) r row_id =
     (case map_of r col_name of
        None \<Rightarrow> ((col_name, idx) # ixs, Some (KeyError col_name))
      | Some v \<Rightarrow>
          (case delete_from_indexes ixs r row_id of
             (ixs', e) \<Rightarrow> ((col_name, HashIndex_delete idx v row_id) # ixs', e)))"

definition delete_row :: "table \<Rightarrow> pyval \<Rightarrow> table \<times> (error + bool)" where
  "delete_row t row_id =
     (case find (is_live_row t row_id) (rows t) of
        None \<Rightarrow> (t, Inr False)
      | Some r \<Rightarrow>
          (let t1 = t\<lparr>deleted_row_ids := insert row_id (deleted_row_ids t)\<rparr> in
           case delete_from_indexes (indexes t1) r row_id of
             (ixs, Some e) \<Rightarrow> (t1\<lparr>indexes := ixs\<rparr>, Inl e)
           | (ixs, None) \<Rightarrow> (t1\<lparr>indexes := ixs\<rparr>, Inr True)))"

definition scan :: "table \<Rightarrow> row list" where
  "scan t =
     map strip_internal_id
       (filter (\<lambda>r. \<not> py_in (row_get r ''_row_id'') (deleted_row_ids t)) (rows t))"

definition has_index :: "table \<Rightarrow> string \<Rightarrow> bool" where
  "has_index t column_name = (map_of (indexes t) column_name \<noteq> None)"

definition get_index :: "table \<Rightarrow> string \<Rightarrow> hash_index option" where
  "get_index t column_name = map_of (indexes t) column_name"

section \<open>Query planner (\<open>executor/planner.py\<close>)\<close>

text \<open>
  \<open>_find_index_opportunity\<close> returns a pair; \<open>(None, None)\<close> of the source is
  \<open>(None, VNull)\<close> here.
\<close>

definition find_index_opportunity :: "table \<Rightarrow> condition \<Rightarrow> string option \<times> pyval" where
  "find_index_opportunity t cond =
     (case cond of
        Comparison left op right \<Rightarrow>
          if op = EQ then
            (case left of
               ColumnRef lname ltable \<Rightarrow>
                 (case right of
                    Literal rv rty \<Rightarrow> if has_index t lname then (Some lname, rv) else (None, VNull)
                  | ColumnRef rname rtable \<Rightarrow> (None, VNull))
             | Literal lv lty \<Rightarrow>
                 (case right of
                    ColumnRef rname rtable \<Rightarrow>
                      if has_index t rname then (Some rname, lv) else (None, VNull)
                  | Literal rv rty \<Rightarrow> (None, VNull)))
          else (None, VNull)
      | LogicalCondition left op right \<Rightarrow> (None, VNull))"

text \<open>
  \<open>_get_candidate_rows\<close>. The test \<open>if index:\<close> is the truth value of a
  \<open>HashIndex\<close>, which defines \<open>__len__\<close>: an index without keys is false and the
  full scan is taken.
\<close>

definition get_candidate_rows :: "table \<Rightarrow> condition \<Rightarrow> row list" where
  "get_candidate_rows t cond =
     (case find_index_opportunity t cond of
        (index_column, index_value) \<Rightarrow>
          (case index_column of
             None \<Rightarrow> scan t
           | Some c \<Rightarrow>
               if c \<noteq> [] \<and> index_value \<noteq> VNull then
                 (case get_index t c of
                    None \<Rightarrow> scan t
                  | Some idx \<Rightarrow>
                      if HashIndex_len idx \<noteq> 0 then
                        List.map_filter (get_row t) (HashIndex_search idx index_value)
                      else scan t)
               else scan t))"

text \<open>The filtering loop of \<open>get_matching_rows\<close>; the first evaluation that raises ends it.\<close>

fun filter_rows :: "condition \<Rightarrow> row list \<Rightarrow> error + row list" where
  "filter_rows cond [] = Inr []"
| "filter_rows cond (r # rs) =
     (case evaluate cond r of
        Inl e \<Rightarrow> Inl e
      | Inr b \<Rightarrow>
          (case filter_rows cond rs of
             Inl e \<Rightarrow> Inl e
           | Inr matching \<Rightarrow> Inr (if b then r # matching else matching)))"

definition get_matching_rows :: "table \<Rightarrow> condition option \<Rightarrow> error + row list" where
  "get_matching_rows t where_clause =
     (case where_clause of
        None \<Rightarrow> Inr (scan t)
      | Some cond \<Rightarrow> filter_rows cond (get_candidate_rows t cond))"

section \<open>Query executor (\<open>executor/executor.py\<close>)\<close>

text \<open>
  The handlers for SELECT without a join, UPDATE and DELETE, from the point where the
  statement's table has been looked up in the database. \<open>project_columns\<close> leaves
  out a column that the row lacks and raises nothing, so the \<open>except KeyError\<close>
  clause of \<open>_execute_select\<close> has nothing to catch.
\<close>

datatype select_columns = Star | Columns "string list"

definition execute_select :: "table \<Rightarrow> select_columns \<Rightarrow> condition option \<Rightarrow> error + row list" where
  "execute_select t cols where_clause =
     (case get_matching_rows t where_clause of
        Inl e \<Rightarrow> Inl e
      | Inr matching_rows \<Rightarrow>
          (case cols of
             Star \<Rightarrow> Inr matching_rows
           | Columns cs \<Rightarrow> Inr (map (\<lambda>r. project_columns r cs) matching_rows)))"

text \<open>
  UPDATE and DELETE find each matching row again among the stored rows: the first
  live row each of whose values equals (Python \<open>==\<close>) the value the matching row has
  under that key, a missing key reading as \<open>None\<close>. The identifier handed to
  \<open>update_row\<close> or \<open>delete_row\<close> is the value that row holds under \<open>_row_id\<close>.
\<close>

definition is_match :: "row \<Rightarrow> row \<Rightarrow> bool" where
  "is_match r match_row = list_all (\<lambda>(k, v). py_eq (row_get r k) v) match_row"

fun find_matching_row :: "pyval set \<Rightarrow> row list \<Rightarrow> row \<Rightarrow> row option" where
  "find_matching_row deleted [] match_row = None"
| "find_matching_row deleted (r # rs) match_row =
     (if \<not> py_in (row_get r ''_row_id'') deleted \<and> is_match r match_row then Some r
      else find_matching_row deleted rs match_row)"

fun update_loop :: "table \<Rightarrow> row \<Rightarrow> row list \<Rightarrow> nat \<Rightarrow> table \<times> (error + nat)" where
  "update_loop t assignments [] updated_count = (t, Inr updated_count)"
| "update_loop t assignments (match_row # ms) updated_count =
     (case find_matching_row (deleted_row_ids t) (rows t) match_row of
        None \<Rightarrow> update_loop t assignments ms updated_count
      | Some r \<Rightarrow>
          (case map_of r ''_row_id'' of
             None \<Rightarrow> (t, Inl (KeyError ''_row_id''))
           | Some row_id \<Rightarrow>
               (case update_row t row_id assignments of
                  (t', Inl e) \<Rightarrow> (t', Inl e)
                | (t', Inr b) \<Rightarrow> update_loop t' assignments ms (updated_count + 1))))"

definition execute_update :: "table \<Rightarrow> row \<Rightarrow> condition option \<Rightarrow> table \<times> (error + nat)" where
  "execute_update t assignments where_clause =
     (case get_matching_rows t where_clause of
        Inl e \<Rightarrow> (t, Inl e)
      | Inr matching_rows \<Rightarrow> update_loop t assignments matching_rows 0)"

fun delete_loop :: "table \<Rightarrow> row list \<Rightarrow> nat \<Rightarrow> table \<times> (error + nat)" where
  "delete_loop t [] deleted_count = (t, Inr deleted_count)"
| "delete_loop t (match_row # ms) deleted_count =
     (case find_matching_row (deleted_row_ids t) (rows t) match_row of
        None \<Rightarrow> delete_loop t ms deleted_count
      | Some r \<Rightarrow>
          (case map_of r ''_row_id'' of
             None \<Rightarrow> (t, Inl (KeyError ''_row_id''))
           | Some row_id \<Rightarrow>
               (case delete_row t row_id of
                  (t', Inl e) \<Rightarrow> (t', Inl e)
                | (t', Inr b) \<Rightarrow> delete_loop t' ms (deleted_count + 1))))"

definition execute_delete :: "table \<Rightarrow> condition option \<Rightarrow> table \<times> (error + nat)" where
  "execute_delete t where_clause =
     (case get_matching_rows t where_clause of
        Inl e \<Rightarrow> (t, Inl e)
      | Inr matching_rows \<Rightarrow> delete_loop t matching_rows 0)"

section \<open>Table states that the operations produce\<close>

text \<open>
  One call of a mutating operation of \<open>Table\<close>, whatever its outcome. The assignments
  of an update are a dict, so their keys are distinct; a row identifier passed to
  \<open>update_row\<close> or \<open>delete_row\<close> is an integer, as their signatures say. A table is
  reachable when it comes from \<open>Table.__init__\<close>, on any list of columns, by such
  calls.
\<close>

inductive step :: "table \<Rightarrow> table \<Rightarrow> bool" where
  step_insert: "insert_row t row_data = (t', res) \<Longrightarrow> step t t'"
| step_update: "distinct (map fst updates) \<Longrightarrow> update_row t (VInt i) updates = (t', res') \<Longrightarrow> step t t'"
| step_delete: "delete_row t (VInt i) = (t', res') \<Longrightarrow> step t t'"
| step_create_index: "create_index t column_name = (t', res'') \<Longrightarrow> step t t'"
| step_drop_index: "drop_index t column_name = (t', res'') \<Longrightarrow> step t t'"

inductive reachable :: "table \<Rightarrow> bool" where
  reachable_init: "Table nm cols = Inr t \<Longrightarrow> reachable t"
| reachable_step: "reachable t \<Longrightarrow> step t t' \<Longrightarrow> reachable t'"

text \<open>
  Every stored row has a value for every column of the table, and only columns of the
  table are indexed.
\<close>

definition keys_ok :: "table \<Rightarrow> bool" where
  "keys_ok t =
     ((\<forall>r \<in> set (rows t). fst ` set (columns t) \<subseteq> fst ` set r)
      \<and> fst ` set (indexes t) \<subseteq> fst ` set (columns t))"

subsection \<open>The table after a successful operation\<close>

definition inserted :: "table \<Rightarrow> row \<Rightarrow> table" where
  "inserted t cr =
     t\<lparr>next_row_id := next_row_id t + 1,
       rows := rows t @ [AList.update ''_row_id'' (VInt (int (next_row_id t))) cr],
       indexes :=
         map (\<lambda>e. (fst e,
                    HashIndex_insert (snd e)
                      (the (map_of (AList.update ''_row_id'' (VInt (int (next_row_id t))) cr) (fst e)))
                      (VInt (int (next_row_id t)))))
           (indexes t)\<rparr>"

definition deleted_state :: "table \<Rightarrow> pyval \<Rightarrow> row \<Rightarrow> table" where
  "deleted_state t rid r =
     t\<lparr>deleted_row_ids := insert rid (deleted_row_ids t),
       indexes := map (\<lambda>e. (fst e, HashIndex_delete (snd e) (the (map_of r (fst e))) rid))
                    (indexes t)\<rparr>"

definition updated_state :: "table \<Rightarrow> nat \<Rightarrow> row \<Rightarrow> (string \<times> hash_index) list \<Rightarrow> table" where
  "updated_state t i nr ixs = t\<lparr>indexes := ixs, rows := (rows t)[i := nr]\<rparr>"

subsection \<open>Concrete tables\<close>

text \<open>
  The table of the constraint scenario, \<open>t(id INTEGER PRIMARY KEY, e VARCHAR(10) UNIQUE)\<close>:
  empty, after inserting \<open>(1, 'a')\<close>, after also inserting \<open>(2, 'b')\<close>, and after
  then deleting the first row.
\<close>

definition example_columns :: "column list" where
  "example_columns =
     [\<lparr>name = ''id'', data_type = INTEGER, max_length = None, constraints = {PRIMARY_KEY}\<rparr>,
      \<lparr>name = ''e'', data_type = VARCHAR, max_length = Some 10, constraints = {UNIQUE}\<rparr>]"

definition example_table :: "row list \<Rightarrow> pyval set \<Rightarrow> (pyval \<times> pyval list) list
    \<Rightarrow> (pyval \<times> pyval list) list \<Rightarrow> table" where
  "example_table stored deleted id_index e_index =
     \<lparr>table_name = ''t'',
      columns = map (\<lambda>col. (name col, col)) example_columns,
      column_order = [''id'', ''e''],
      primary_key = Some ''id'',
      rows = stored,
      next_row_id = length stored,
      deleted_row_ids = deleted,
      indexes = [(''id'', \<lparr>hi_column_name = ''id'', hi_index = id_index\<rparr>),
                 (''e'', \<lparr>hi_column_name = ''e'', hi_index = e_index\<rparr>)]\<rparr>"

definition example_empty :: table where
  "example_empty = example_table [] {} [] []"

definition example_one :: table where
  "example_one =
     example_table [[(''id'', VInt 1), (''e'', VStr ''a''), (''_row_id'', VInt 0)]] {}
       [(VInt 1, [VInt 0])] [(VStr ''a'', [VInt 0])]"

definition example_two :: table where
  "example_two =
     example_table
       [[(''id'', VInt 1), (''e'', VStr ''a''), (''_row_id'', VInt 0)],
        [(''id'', VInt 2), (''e'', VStr ''b''), (''_row_id'', VInt 1)]] {}
       [(VInt 1, [VInt 0]), (VInt 2, [VInt 1])] [(VStr ''a'', [VInt 0]), (VStr ''b'', [VInt 1])]"

definition example_deleted :: table where
  "example_deleted =
     example_table
       [[(''id'', VInt 1), (''e'', VStr ''a''), (''_row_id'', VInt 0)],
        [(''id'', VInt 2), (''e'', VStr ''b''), (''_row_id'', VInt 1)]] {VInt 0}
       [(VInt 2, [VInt 1])] [(VStr ''b'', [VInt 1])]"

text \<open>
  A table \<open>r(_row_id INTEGER)\<close>, whose only column has the name of the key under
  which a stored row keeps its identifier: as \<open>Table.__init__\<close> builds it, with an
  index created on the column, after inserting the row \<open>{_row_id: 5}\<close>, and after
  then updating that row's column to 7.
\<close>

definition rowid_columns :: "column list" where
  "rowid_columns =
     [\<lparr>name = ''_row_id'', data_type = INTEGER, max_length = None, constraints = {}\<rparr>]"

definition rowid_table :: "row list \<Rightarrow> (string \<times> hash_index) list \<Rightarrow> table" where
  "rowid_table stored ixs =
     \<lparr>table_name = ''r'',
      columns = map (\<lambda>col. (name col, col)) rowid_columns,
      column_order = [''_row_id''],
      primary_key = None,
      rows = stored,
      next_row_id = length stored,
      deleted_row_ids = {},
      indexes = ixs\<rparr>"

definition rowid_indexed :: "row list \<Rightarrow> (pyval \<times> pyval list) list \<Rightarrow> table" where
  "rowid_indexed stored ix =
     rowid_table stored [(''_row_id'', \<lparr>hi_column_name = ''_row_id'', hi_index = ix\<rparr>)]"

definition rowid_one :: table where
  "rowid_one = rowid_indexed [[(''_row_id'', VInt 0)]] [(VInt 0, [VInt 0])]"

definition rowid_updated :: table where
  "rowid_updated = rowid_indexed [[(''_row_id'', VInt 7)]] [(VInt 7, [VInt 0])]"

definition row_id_is_5 :: condition where
  "row_id_is_5 = Comparison (ColumnRef ''_row_id'' None) EQ (Literal (VInt 5) ''NUMBER'')"

subsection \<open>Tables with a valid schema\<close>

text \<open>
  A schema whose column names are pairwise distinct accepted identifiers, none of
  them the key \<open>_row_id\<close> that a stored row uses for its identifier.
\<close>

definition valid_schema :: "table \<Rightarrow> bool" where
  "valid_schema t =
     (distinct (column_order t)
      \<and> list_all (\<lambda>c. validate_identifier c = Inr True \<and> c \<noteq> ''_row_id'') (column_order t))"

text \<open>
  The stored rows as pairs of the identifier a row holds and the row that a scan
  shows for it.
\<close>

definition srows :: "table \<Rightarrow> (pyval \<times> row) list" where
  "srows t = map (\<lambda>r. (row_get r ''_row_id'', strip_internal_id r)) (rows t)"

text \<open>The invariants of a reachable table with a valid schema.\<close>

fun dict_ok :: "(pyval \<times> 'a) list \<Rightarrow> bool" where
  "dict_ok [] = True"
| "dict_ok ((k, v) # d) = (dict_get d k = None \<and> dict_ok d)"

definition live_row :: "table \<Rightarrow> pyval \<Rightarrow> row \<Rightarrow> bool" where
  "live_row t i r = ((i, r) \<in> set (srows t) \<and> i \<notin> deleted_row_ids t)"

text \<open>The live rows whose value in column \<open>c\<close> is not null and equals \<open>v\<close>.\<close>

definition holders :: "table \<Rightarrow> string \<Rightarrow> pyval \<Rightarrow> pyval set" where
  "holders t c v =
     {i. \<exists>r x. live_row t i r \<and> map_of r c = Some x \<and> x \<noteq> VNull \<and> py_eq x v}"

definition schema_ok :: "table \<Rightarrow> bool" where
  "schema_ok t =
     (distinct (map fst (columns t))
      \<and> (\<forall>c \<in> set (map fst (columns t)). c \<noteq> [] \<and> c \<noteq> ''_row_id''))"

definition rows_ok :: "table \<Rightarrow> bool" where
  "rows_ok t =
     (map fst (srows t) = map (\<lambda>k. VInt (int k)) [0..<next_row_id t]
      \<and> (\<forall>stored \<in> set (srows t). map fst (snd stored) = map fst (columns t))
      \<and> (\<forall>d \<in> deleted_row_ids t. \<exists>k < next_row_id t. d = VInt (int k)))"

definition index_ok :: "table \<Rightarrow> string \<Rightarrow> hash_index \<Rightarrow> bool" where
  "index_ok t c idx =
     (dict_ok (hi_index idx) \<and> VNull \<notin> fst ` set (hi_index idx)
      \<and> (\<forall>v. distinct (HashIndex_search idx v) \<and> set (HashIndex_search idx v) = holders t c v))"

definition indexes_ok :: "table \<Rightarrow> bool" where
  "indexes_ok t =
     (distinct (map fst (indexes t))
      \<and> (\<forall>entry \<in> set (indexes t).
            fst entry \<in> set (map fst (columns t)) \<and> index_ok t (fst entry) (snd entry)))"

definition constraints_ok :: "table \<Rightarrow> bool" where
  "constraints_ok t =
     ((\<forall>entry \<in> set (columns t).
         (is_unique (snd entry) \<longrightarrow>
            (\<exists>idx. map_of (indexes t) (fst entry) = Some idx
                   \<and> (\<forall>v. length (HashIndex_search idx v) \<le> 1)))
         \<and> (is_primary_key (snd entry) \<longleftrightarrow> primary_key t = Some (fst entry)))
      \<and> (\<forall>pk. primary_key t = Some pk \<longrightarrow> pk \<in> set (map fst (columns t))))"

definition table_inv :: "table \<Rightarrow> bool" where
  "table_inv t = (schema_ok t \<and> rows_ok t \<and> indexes_ok t \<and> constraints_ok t)"

text \<open>Filling a new index.\<close>

definition matching_ids :: "(pyval \<times> row) list \<Rightarrow> pyval set \<Rightarrow> string \<Rightarrow> pyval \<Rightarrow> pyval list" where
  "matching_ids rs del cn v =
     map fst (filter (\<lambda>s. fst s \<notin> del \<and> (\<exists>x. map_of (snd s) cn = Some x \<and> x \<noteq> VNull \<and> py_eq x v)) rs)"

definition empty_ok :: "table \<Rightarrow> bool" where
  "empty_ok t = (schema_ok t \<and> rows_ok t \<and> indexes_ok t \<and> rows t = [])"

text \<open>
  A row that gets past the first two stages of \<open>insert_row\<close>: it names only columns of
  the table, and for every column its value (null when missing) passes the column's
  validation.
\<close>

definition passes_validation :: "table \<Rightarrow> row \<Rightarrow> bool" where
  "passes_validation t row_data =
     (list_all (\<lambda>k. map_of (columns t) k \<noteq> None) (map fst row_data)
      \<and> list_all (\<lambda>entry. validate (snd entry) (row_get row_data (fst entry)) (fst entry) = None)
           (columns t))"

text \<open>Some live row, as a scan shows it, holds a non-null value equal to \<open>v\<close> in column \<open>c\<close>.\<close>

definition value_held :: "table \<Rightarrow> string \<Rightarrow> pyval \<Rightarrow> bool" where
  "value_held t c v =
     list_ex (\<lambda>r. case map_of r c of None \<Rightarrow> False | Some x \<Rightarrow> x \<noteq> VNull \<and> py_eq x v) (scan t)"

text \<open>The row collides with no live row on a unique column other than the primary key.\<close>

definition no_unique_collision :: "table \<Rightarrow> row \<Rightarrow> bool" where
  "no_unique_collision t row_data =
     list_all (\<lambda>entry. is_unique (snd entry) \<and> \<not> is_primary_key (snd entry)
                 \<longrightarrow> \<not> value_held t (fst entry) (row_get row_data (fst entry)))
       (columns t)"

text \<open>
  A table \<open>z(a INTEGER PRIMARY KEY, a TEXT)\<close>, two of whose columns share a name: the
  dict of columns keeps the second, the primary key and its index come from the
  first. The states are: empty, after inserting \<open>'x'\<close> and \<open>'y'\<close>, after updating the
  second row to \<open>'x'\<close>, and after then deleting the first row.
\<close>

definition dup_columns :: "column list" where
  "dup_columns =
     [\<lparr>name = ''a'', data_type = INTEGER, max_length = None, constraints = {PRIMARY_KEY}\<rparr>,
      \<lparr>name = ''a'', data_type = TEXT, max_length = None, constraints = {}\<rparr>]"

definition dup_table :: "row list \<Rightarrow> pyval set \<Rightarrow> (pyval \<times> pyval list) list \<Rightarrow> table" where
  "dup_table stored deleted a_index =
     \<lparr>table_name = ''z'',
      columns = [(''a'', \<lparr>name = ''a'', data_type = TEXT, max_length = None, constraints = {}\<rparr>)],
      column_order = [''a'', ''a''],
      primary_key = Some ''a'',
      rows = stored,
      next_row_id = length stored,
      deleted_row_ids = deleted,
      indexes = [(''a'', \<lparr>hi_column_name = ''a'', hi_index = a_index\<rparr>)]\<rparr>"

definition dup_two :: table where
  "dup_two =
     dup_table [[(''a'', VStr ''x''), (''_row_id'', VInt 0)], [(''a'', VStr ''y''), (''_row_id'', VInt 1)]]
       {} [(VStr ''x'', [VInt 0]), (VStr ''y'', [VInt 1])]"

definition dup_same :: table where
  "dup_same =
     dup_table [[(''a'', VStr ''x''), (''_row_id'', VInt 0)], [(''a'', VStr ''x''), (''_row_id'', VInt 1)]]
       {} [(VStr ''x'', [VInt 0, VInt 1])]"

definition dup_deleted :: table where
  "dup_deleted =
     dup_table [[(''a'', VStr ''x''), (''_row_id'', VInt 0)], [(''a'', VStr ''x''), (''_row_id'', VInt 1)]]
       {VInt 0} [(VStr ''x'', [VInt 1])]"

text \<open>
  A table \<open>w(id INTEGER PRIMARY KEY, _row_id INTEGER)\<close>: after inserting
  \<open>{id: 1, _row_id: 9}\<close>, after updating the column \<open>_row_id\<close> of that row to 7, and
  after then deleting the row, whose identifier is now 7.
\<close>

definition w_columns :: "column list" where
  "w_columns =
     [\<lparr>name = ''id'', data_type = INTEGER, max_length = None, constraints = {PRIMARY_KEY}\<rparr>,
      \<lparr>name = ''_row_id'', data_type = INTEGER, max_length = None, constraints = {}\<rparr>]"

definition w_table :: "row list \<Rightarrow> pyval set \<Rightarrow> (pyval \<times> pyval list) list \<Rightarrow> table" where
  "w_table stored deleted id_index =
     \<lparr>table_name = ''w'',
      columns = map (\<lambda>col. (name col, col)) w_columns,
      column_order = [''id'', ''_row_id''],
      primary_key = Some ''id'',
      rows = stored,
      next_row_id = length stored,
      deleted_row_ids = deleted,
      indexes = [(''id'', \<lparr>hi_column_name = ''id'', hi_index = id_index\<rparr>)]\<rparr>"

definition w_one :: table where
  "w_one = w_table [[(''id'', VInt 1), (''_row_id'', VInt 0)]] {} [(VInt 1, [VInt 0])]"

definition w_moved :: table where
  "w_moved = w_table [[(''id'', VInt 1), (''_row_id'', VInt 7)]] {} [(VInt 1, [VInt 0])]"

definition w_deleted :: table where
  "w_deleted = w_table [[(''id'', VInt 1), (''_row_id'', VInt 7)]] {VInt 7} [(VInt 1, [VInt 0])]"

section \<open>Properties of the evaluator and the validator\<close>

lemma py_eq_null_iff: "py_eq VNull v \<longleftrightarrow> v = VNull"
  by (cases v) (simp_all add: py_eq_def)

lemma py_eq_null_iff2: "py_eq v VNull \<longleftrightarrow> v = VNull"
  by (cases v) (simp_all add: py_eq_def)

text \<open>
  C5. When both operands of a comparison resolve and at least one of them is null,
  the result is false for every operator other than \<open>NE\<close>; for \<open>NE\<close> it is the
  inequality of the two values, so null against null is false and null against a
  non-null value is true.
\<close>

theorem null_comparison:
  assumes "get_value left r = Inr lv" and "get_value right r = Inr rv"
    and "lv = VNull \<or> rv = VNull"
  shows "evaluate (Comparison left op right) r = Inr (op = NE \<and> lv \<noteq> rv)"
  using assms
  by (auto simp: evaluate_comparison_def py_eq_null_iff py_eq_null_iff2)

theorem null_comparison_witness:
  "get_value (ColumnRef ''a'' None) [(''a'', VNull)] = Inr VNull
   \<and> get_value (Literal (VInt 3) ''NUMBER'') [(''a'', VNull)] = Inr (VInt 3)
   \<and> evaluate (Comparison (ColumnRef ''a'' None) NE (Literal (VInt 3) ''NUMBER''))
         [(''a'', VNull)] = Inr True
   \<and> evaluate (Comparison (ColumnRef ''a'' None) EQ (Literal (VInt 3) ''NUMBER''))
         [(''a'', VNull)] = Inr False
   \<and> evaluate (Comparison (ColumnRef ''a'' None) NE (ColumnRef ''a'' None))
         [(''a'', VNull)] = Inr False"
proof -
  have l: "get_value (ColumnRef ''a'' None) [(''a'', VNull)] = Inr VNull"
    by (simp add: get_value_def get_column_value_def)
  have r: "get_value (Literal (VInt 3) ''NUMBER'') [(''a'', VNull)] = Inr (VInt 3)"
    by (simp add: get_value_def)
  show ?thesis
    using l r null_comparison [OF l r, of NE] null_comparison [OF l r, of EQ]
      null_comparison [OF l l, of NE]
    by simp
qed

text \<open>
  The lookup of \<open>get_column_value\<close> fails exactly on the references that are absent
  from the row's keys.
\<close>

lemma lookup_fails_iff_absent:
  "get_column_value r c tn = None \<longleftrightarrow> absent r (c, tn)"
proof (cases tn)
  case None
  then show ?thesis
    by (simp add: get_column_value_def absent_def map_of_eq_None_iff)
next
  case (Some q)
  show ?thesis
  proof (cases "q = []")
    case True
    then show ?thesis using Some
      by (simp add: get_column_value_def absent_def map_of_eq_None_iff)
  next
    case False
    show ?thesis
    proof (cases "map_of r (q @ ''.'' @ c)")
      case None
      then have k: "q @ ''.'' @ c \<notin> set (map fst r)" by (simp add: map_of_eq_None_iff)
      have "get_column_value r c tn = map_of r c"
        using \<open>tn = Some q\<close> False None by (simp add: get_column_value_def)
      moreover have "absent r (c, tn) \<longleftrightarrow> c \<notin> set (map fst r)"
        using \<open>tn = Some q\<close> False k by (simp add: absent_def)
      ultimately show ?thesis by (simp add: map_of_eq_None_iff)
    next
      case (Some v)
      then have "(q @ ''.'' @ c, v) \<in> set r" by (rule map_of_SomeD)
      then have k: "q @ ''.'' @ c \<in> set (map fst r)" by force
      have "get_column_value r c tn = Some v"
        using \<open>tn = Some q\<close> False Some by (simp add: get_column_value_def)
      moreover have "\<not> absent r (c, tn)"
        using \<open>tn = Some q\<close> False k by (simp add: absent_def)
      ultimately show ?thesis by simp
    qed
  qed
qed

lemma get_value_not_found_iff:
  "(\<exists>e. get_value x r = Inl e) \<longleftrightarrow> (\<exists>ref \<in> set (expr_refs x). absent r ref)"
  by (cases x) (auto simp: get_value_def lookup_fails_iff_absent [symmetric] split: option.splits)

lemma get_value_error:
  "get_value x r = Inl e \<Longrightarrow> \<exists>c. e = ColumnNotFoundError c None"
  by (cases x) (auto simp: get_value_def split: option.splits)

lemma comparison_resolved:
  "get_value left r = Inr lv \<Longrightarrow> get_value right r = Inr rv \<Longrightarrow>
   evaluate_comparison left op right r \<noteq> Inl (ColumnNotFoundError c t)"
  by (cases op) (auto simp: evaluate_comparison_def py_lt_def py_le_def split: option.splits pyval.splits)

lemma comparison_not_found_iff:
  "(\<exists>c t. evaluate_comparison left op right r = Inl (ColumnNotFoundError c t)) \<longleftrightarrow>
   (\<exists>ref \<in> set (reached (Comparison left op right) r). absent r ref)"
proof (cases "get_value left r")
  case (Inl e)
  then obtain c where "e = ColumnNotFoundError c None" using get_value_error by blast
  then have "evaluate_comparison left op right r = Inl (ColumnNotFoundError c None)"
    using Inl by (simp add: evaluate_comparison_def)
  moreover have "\<exists>ref \<in> set (expr_refs left). absent r ref"
    using Inl get_value_not_found_iff [of left r] by auto
  ultimately show ?thesis using Inl by auto
next
  case (Inr lv)
  then have nl: "\<not> (\<exists>ref \<in> set (expr_refs left). absent r ref)"
    using get_value_not_found_iff [of left r] by auto
  show ?thesis
  proof (cases "get_value right r")
    case (Inl e)
    then obtain c where "e = ColumnNotFoundError c None" using get_value_error by blast
    then have "evaluate_comparison left op right r = Inl (ColumnNotFoundError c None)"
      using Inl Inr by (simp add: evaluate_comparison_def)
    moreover have "\<exists>ref \<in> set (expr_refs right). absent r ref"
      using Inl get_value_not_found_iff [of right r] by auto
    ultimately show ?thesis using Inr by auto
  next
    case (Inr rv)
    then have nr: "\<not> (\<exists>ref \<in> set (expr_refs right). absent r ref)"
      using get_value_not_found_iff [of right r] by auto
    show ?thesis
      using comparison_resolved [OF \<open>get_value left r = Inr lv\<close> Inr] nl nr
        \<open>get_value left r = Inr lv\<close>
      by auto
  qed
qed

lemma not_found_iff:
  "(\<exists>c t. evaluate P r = Inl (ColumnNotFoundError c t)) \<longleftrightarrow>
   (\<exists>ref \<in> set (reached P r). absent r ref)"
proof (induction P)
  case (Comparison left op right)
  show ?case using comparison_not_found_iff [of left op right r] by simp
next
  case (LogicalCondition P1 op P2)
  show ?case
  proof (cases "evaluate P1 r")
    case (Inl e)
    then show ?thesis using LogicalCondition.IH(1) by auto
  next
    case (Inr b)
    then have none: "\<not> (\<exists>ref \<in> set (reached P1 r). absent r ref)"
      using LogicalCondition.IH(1) by auto
    show ?thesis
      using Inr none LogicalCondition.IH(2) by (cases op; cases b) auto
  qed
qed

text \<open>
  C6. An evaluation raises column-not-found exactly when one of the column
  references it looks up is absent from the row, that is, names no key of the row; a
  logical node whose left operand already decides (false under AND, true under OR)
  returns that result and looks up nothing of its right operand, whatever that operand
  refers to.
\<close>

theorem not_found_exactly_when_reached_absent:
  "((\<exists>c t. evaluate P r = Inl (ColumnNotFoundError c t)) \<longleftrightarrow>
      (\<exists>ref \<in> set (reached P r). absent r ref))
   \<and> (evaluate left r = Inr False \<longrightarrow>
        evaluate (LogicalCondition left AND right) r = Inr False
        \<and> reached (LogicalCondition left AND right) r = reached left r)
   \<and> (evaluate left r = Inr True \<longrightarrow>
        evaluate (LogicalCondition left OR right) r = Inr True
        \<and> reached (LogicalCondition left OR right) r = reached left r)"
  using not_found_iff [of P r] by simp

theorem not_found_exactly_when_reached_absent_witness:
  "\<not> absent [(''a'', VInt 1)] (''a'', None)
   \<and> \<not> absent [(''a'', VInt 1)] (''a'', Some ''t'')
   \<and> absent [(''a'', VInt 1)] (''missing'', None)
   \<and> evaluate (Comparison (ColumnRef ''a'' None) EQ (Literal (VInt 2) ''NUMBER''))
        [(''a'', VInt 1)] = Inr False
   \<and> evaluate (LogicalCondition
        (Comparison (ColumnRef ''a'' None) EQ (Literal (VInt 2) ''NUMBER'')) AND
        (Comparison (ColumnRef ''missing'' None) EQ (Literal (VInt 1) ''NUMBER'')))
        [(''a'', VInt 1)] = Inr False
   \<and> reached (LogicalCondition
        (Comparison (ColumnRef ''a'' None) EQ (Literal (VInt 2) ''NUMBER'')) AND
        (Comparison (ColumnRef ''missing'' None) EQ (Literal (VInt 1) ''NUMBER'')))
        [(''a'', VInt 1)] = [(''a'', None)]
   \<and> evaluate (LogicalCondition
        (Comparison (ColumnRef ''a'' (Some ''t'')) EQ (Literal (VInt 1) ''NUMBER'')) OR
        (Comparison (ColumnRef ''missing'' None) EQ (Literal (VInt 1) ''NUMBER'')))
        [(''a'', VInt 1)] = Inr True
   \<and> (\<exists>c t. evaluate (LogicalCondition
        (Comparison (ColumnRef ''a'' (Some ''t'')) EQ (Literal (VInt 1) ''NUMBER'')) AND
        (Comparison (ColumnRef ''missing'' None) EQ (Literal (VInt 1) ''NUMBER'')))
        [(''a'', VInt 1)] = Inl (ColumnNotFoundError c t))
   \<and> \<not> (\<exists>c t. evaluate (Comparison (ColumnRef ''a'' None) LT (Literal (VStr ''x'') ''STRING''))
        [(''a'', VInt 1)] = Inl (ColumnNotFoundError c t))"
proof -
  let ?r = "[(''a'', VInt 1)]"
  let ?f = "Comparison (ColumnRef ''a'' None) EQ (Literal (VInt 2) ''NUMBER'')"
  let ?t = "Comparison (ColumnRef ''a'' (Some ''t'')) EQ (Literal (VInt 1) ''NUMBER'')"
  let ?m = "Comparison (ColumnRef ''missing'' None) EQ (Literal (VInt 1) ''NUMBER'')"
  let ?o = "Comparison (ColumnRef ''a'' None) LT (Literal (VStr ''x'') ''STRING'')"
  have p: "\<not> absent ?r (''a'', None)" "\<not> absent ?r (''a'', Some ''t'')"
    by (simp_all add: absent_def)
  have a: "absent ?r (''missing'', None)"
    by (simp add: absent_def)
  have f: "evaluate ?f ?r = Inr False"
    by (simp add: evaluate_comparison_def get_value_def get_column_value_def py_eq_def)
  have t: "evaluate ?t ?r = Inr True"
    by (simp add: evaluate_comparison_def get_value_def get_column_value_def py_eq_def)
  have rf: "reached ?f ?r = [(''a'', None)]"
    by (simp add: get_value_def get_column_value_def)
  have rt: "reached (LogicalCondition ?t AND ?m) ?r
              = [(''a'', Some ''t''), (''missing'', None)]"
    using t by (simp add: get_value_def get_column_value_def)
  have ex: "\<exists>ref \<in> set (reached (LogicalCondition ?t AND ?m) ?r). absent ?r ref"
    unfolding rt using a by simp
  have ro: "reached ?o ?r = [(''a'', None)]"
    by (simp add: get_value_def get_column_value_def)
  have no: "\<not> (\<exists>ref \<in> set (reached ?o ?r). absent ?r ref)"
    unfolding ro using p by simp
  show ?thesis
    using p a f t rf ex no
      not_found_exactly_when_reached_absent [of "LogicalCondition ?t AND ?m" ?r ?f ?m]
      not_found_exactly_when_reached_absent [of ?o ?r ?t ?m]
    by simp
qed

text \<open>
  C9 as stated fails: a FLOAT column accepts an integer value as it is.
\<close>

theorem float_column_accepts_integer:
  "validate \<lparr>name = ''price'', data_type = FLOAT, max_length = None, constraints = {}\<rparr>
     (VInt 42) ''price'' = None"
  by (simp add: validate_def validate_value_for_type_def is_not_null_def is_primary_key_def)

text \<open>
  C9, amended. For a FLOAT column, validation of a non-null value accepts integers
  and floats and rejects every boolean and every string with a type-validation error
  naming the column.
\<close>

theorem float_column_validation:
  assumes "data_type c = FLOAT" and "v \<noteq> VNull" and "n \<noteq> []"
  shows "validate c v n =
           (case v of
              VInt i \<Rightarrow> None
            | VFloat x \<Rightarrow> None
            | _ \<Rightarrow> Some (TypeValidationError n ''FLOAT'' v))"
  using assms by (cases v) (simp_all add: validate_def validate_value_for_type_def)

theorem float_column_validation_witness:
  "validate \<lparr>name = ''price'', data_type = FLOAT, max_length = None, constraints = {}\<rparr>
     (VBool True) ''price'' = Some (TypeValidationError ''price'' ''FLOAT'' (VBool True))
   \<and> validate \<lparr>name = ''price'', data_type = FLOAT, max_length = None, constraints = {}\<rparr>
     (VFloat 2.5) ''price'' = None"
  using float_column_validation
          [of "\<lparr>name = ''price'', data_type = FLOAT, max_length = None, constraints = {}\<rparr>"
              "VBool True" "''price''"]
        float_column_validation
          [of "\<lparr>name = ''price'', data_type = FLOAT, max_length = None, constraints = {}\<rparr>"
              "VFloat 2.5" "''price''"]
  by simp

section \<open>Rows and indexes keep the table's columns\<close>

lemma map_of_keys: "c \<in> set (map fst r) \<Longrightarrow> \<exists>v. map_of r c = Some v"
  by (metis domIff dom_map_of_conv_image_fst not_Some_eq set_map)

lemma keys_update: "fst ` set (AList.update k v al) = insert k (fst ` set al)"
  using dom_update [of k v al] by auto

lemma keys_delete: "fst ` set (AList.delete k al) \<subseteq> fst ` set al"
  by (induction al) auto

lemma in_keys: "(k, v) \<in> set al \<Longrightarrow> k \<in> fst ` set al"
  by force

lemma keys_okD:
  "keys_ok t \<Longrightarrow> r \<in> set (rows t) \<Longrightarrow> fst ` set (indexes t) \<subseteq> fst ` set r"
  "keys_ok t \<Longrightarrow> r \<in> set (rows t) \<Longrightarrow> fst ` set (columns t) \<subseteq> fst ` set r"
  "keys_ok t \<Longrightarrow> fst ` set (indexes t) \<subseteq> fst ` set (columns t)"
  unfolding keys_ok_def by (simp_all, blast+)

lemma build_complete_row_keys:
  "build_complete_row cols rd = Inr r \<Longrightarrow> map fst r = map fst cols"
  by (induction cols arbitrary: r) (auto simp: Let_def split: option.splits sum.splits)

lemma insert_into_indexes_ok:
  "set (map fst ixs) \<subseteq> set (map fst r) \<Longrightarrow>
   insert_into_indexes ixs r rid =
     (map (\<lambda>e. (fst e, HashIndex_insert (snd e) (the (map_of r (fst e))) rid)) ixs, None)"
proof (induction ixs)
  case Nil
  then show ?case by simp
next
  case (Cons a ixs)
  obtain c idx where a: "a = (c, idx)" by (cases a)
  from Cons.prems a have "c \<in> fst ` set r" by auto
  then obtain v where "map_of r c = Some v"
    by (metis domIff dom_map_of_conv_image_fst not_Some_eq)
  then show ?case using Cons a by auto
qed

lemma delete_from_indexes_ok:
  "set (map fst ixs) \<subseteq> set (map fst r) \<Longrightarrow>
   delete_from_indexes ixs r rid =
     (map (\<lambda>e. (fst e, HashIndex_delete (snd e) (the (map_of r (fst e))) rid)) ixs, None)"
proof (induction ixs)
  case Nil
  then show ?case by simp
next
  case (Cons a ixs)
  obtain c idx where a: "a = (c, idx)" by (cases a)
  from Cons.prems a have "c \<in> fst ` set r" by auto
  then obtain v where "map_of r c = Some v"
    by (metis domIff dom_map_of_conv_image_fst not_Some_eq)
  then show ?case using Cons a by auto
qed

lemma insert_row_cases:
  assumes "keys_ok t" "insert_row t rd = (t', res)"
  shows "(t' = t \<and> (\<exists>e. res = Inl e)) \<or>
         (\<exists>cr. build_complete_row (columns t) rd = Inr cr
               \<and> check_primary_key t cr = None
               \<and> check_unique t (columns t) cr = None
               \<and> res = Inr (next_row_id t) \<and> t' = inserted t cr)"
proof (cases "find (\<lambda>col_name. map_of (columns t) col_name = None) (map fst rd)")
  case (Some a)
  then show ?thesis using assms(2) by (auto simp: insert_row_def)
next
  case None
  show ?thesis
  proof (cases "build_complete_row (columns t) rd")
    case (Inl e)
    then show ?thesis using assms(2) None by (auto simp: insert_row_def)
  next
    case (Inr cr)
    let ?sr = "AList.update ''_row_id'' (VInt (int (next_row_id t))) cr"
    have keys: "map fst cr = map fst (columns t)"
      using Inr by (rule build_complete_row_keys)
    have "fst ` set (indexes t) \<subseteq> fst ` set cr"
      using keys_okD(3) [OF assms(1)] keys by (metis set_map)
    then have sub: "set (map fst (indexes t)) \<subseteq> set (map fst ?sr)"
      by (auto simp: keys_update)
    show ?thesis
      using assms(2) None Inr insert_into_indexes_ok [OF sub, of "VInt (int (next_row_id t))"]
      by (auto simp: insert_row_def inserted_def Let_def split: option.splits)
  qed
qed

lemma keys_ok_inserted:
  assumes "keys_ok t" "map fst cr = map fst (columns t)"
  shows "keys_ok (inserted t cr)"
proof -
  have "fst ` set (columns t) = fst ` set cr" using assms(2) by (metis set_map)
  then have "fst ` set (columns t) \<subseteq> fst ` set (AList.update ''_row_id'' v cr)" for v
    by (auto simp: keys_update)
  moreover have "fst ` set (columns t) \<subseteq> fst ` set r" if "r \<in> set (rows t)" for r
    using keys_okD(2) [OF assms(1) that] .
  moreover have "fst ` set (indexes t) \<subseteq> fst ` set (columns t)"
    using keys_okD(3) [OF assms(1)] .
  ultimately show ?thesis
    by (auto simp: keys_ok_def inserted_def image_image)
qed

lemma keys_ok_insert_row:
  assumes "keys_ok t" "insert_row t rd = (t', res)"
  shows "keys_ok t'"
  using insert_row_cases [OF assms] assms(1) keys_ok_inserted build_complete_row_keys
  by blast

lemma delete_row_cases:
  assumes k: "keys_ok t" and d: "delete_row t rid = (t', res)"
  shows "(t' = t \<and> res = Inr False \<and> find (is_live_row t rid) (rows t) = None) \<or>
         (\<exists>r. find (is_live_row t rid) (rows t) = Some r \<and> r \<in> set (rows t)
              \<and> is_live_row t rid r \<and> res = Inr True \<and> t' = deleted_state t rid r)"
proof (cases "find (is_live_row t rid) (rows t)")
  case None
  then show ?thesis using d by (auto simp: delete_row_def)
next
  case (Some r)
  then have l: "is_live_row t rid r \<and> r \<in> set (rows t)"
    by (metis find_Some_iff nth_mem)
  have sub: "set (map fst (indexes t)) \<subseteq> set (map fst r)"
    using keys_okD(1) [OF k] l by simp
  show ?thesis
    using d Some l delete_from_indexes_ok [OF sub, of rid]
    by (auto simp: delete_row_def deleted_state_def Let_def)
qed

lemma keys_ok_deleted: "keys_ok t \<Longrightarrow> keys_ok (deleted_state t rid r)"
  by (simp add: keys_ok_def deleted_state_def image_image)

lemma keys_ok_delete_row:
  assumes "keys_ok t" "delete_row t rid = (t', res)"
  shows "keys_ok t'"
  using delete_row_cases [OF assms] assms(1) keys_ok_deleted by blast

lemma find_row_index_Some:
  "find_row_index t rid rs k = Some i \<Longrightarrow>
     k \<le> i \<and> i - k < length rs \<and> is_live_row t rid (rs ! (i - k))
     \<and> (\<forall>j < i - k. \<not> is_live_row t rid (rs ! j))"
proof (induction rs arbitrary: k)
  case Nil
  then show ?case by simp
next
  case (Cons a rs)
  show ?case
  proof (cases "is_live_row t rid a")
    case True
    then show ?thesis using Cons.prems by auto
  next
    case False
    then have "find_row_index t rid rs (k + 1) = Some i" using Cons.prems by simp
    from Cons.IH [OF this] have le: "k + 1 \<le> i" and lt: "i - (k + 1) < length rs"
      and lv: "is_live_row t rid (rs ! (i - (k + 1)))"
      and fs: "\<forall>j < i - (k + 1). \<not> is_live_row t rid (rs ! j)" by auto
    have nth: "(a # rs) ! (i - k) = rs ! (i - (k + 1))"
      using le by (simp add: nth_Cons')
    have "\<not> is_live_row t rid ((a # rs) ! j)" if "j < i - k" for j
      using that False fs le by (cases j) auto
    then show ?thesis using le lt lv nth by auto
  qed
qed

lemma find_row_index_None:
  "find_row_index t rid rs k = None \<Longrightarrow> \<forall>s \<in> set rs. \<not> is_live_row t rid s"
  by (induction rs arbitrary: k) (auto split: if_splits)

lemma apply_updates_no_error:
  "set (map fst ups) \<subseteq> set (map fst old) \<Longrightarrow>
   \<exists>nr ixs'. apply_updates old rid ups nr0 ixs = ((nr, ixs'), None)"
proof (induction ups arbitrary: nr0 ixs)
  case Nil
  then show ?case by simp
next
  case (Cons a ups)
  obtain cn nv where a: "a = (cn, nv)" by (cases a)
  obtain ov where ov: "map_of old cn = Some ov"
    using Cons.prems a map_of_keys [of cn old] by auto
  have sub: "set (map fst ups) \<subseteq> set (map fst old)" using Cons.prems by simp
  show ?case using a ov Cons.IH [OF sub] by simp
qed

lemma apply_updates_keys:
  "apply_updates old rid ups nr0 ixs = ((nr, ixs'), e) \<Longrightarrow>
   set (map fst nr0) \<subseteq> set (map fst nr) \<and> set (map fst ixs') = set (map fst ixs)"
proof (induction ups arbitrary: nr0 ixs)
  case Nil
  then show ?case by simp
next
  case (Cons a ups)
  obtain cn nv where a: "a = (cn, nv)" by (cases a)
  show ?case
  proof (cases "map_of old cn")
    case None
    then show ?thesis using Cons.prems a by simp
  next
    case (Some ov)
    let ?nr1 = "AList.update cn nv nr0"
    let ?ixs1 = "(case map_of ixs cn of None \<Rightarrow> ixs
       | Some idx \<Rightarrow> AList.update cn (HashIndex_insert (HashIndex_delete idx ov rid) nv rid) ixs)"
    have "apply_updates old rid ups ?nr1 ?ixs1 = ((nr, ixs'), e)"
      using Cons.prems a Some by simp
    from Cons.IH [OF this]
    have 1: "set (map fst ?nr1) \<subseteq> set (map fst nr)" and 2: "set (map fst ixs') = set (map fst ?ixs1)"
      by auto
    have 3: "set (map fst ?ixs1) = set (map fst ixs)"
    proof (cases "map_of ixs cn")
      case None
      then show ?thesis by simp
    next
      case (Some idx)
      then have "(cn, idx) \<in> set ixs" by (rule map_of_SomeD)
      then have "cn \<in> fst ` set ixs" by force
      then show ?thesis using Some by (simp add: keys_update insert_absorb)
    qed
    show ?thesis using 1 2 3 by (simp add: keys_update)
  qed
qed

lemma validate_updates_None:
  "validate_updates t rid ups = None \<Longrightarrow> (cn, nv) \<in> set ups \<Longrightarrow>
   \<exists>col. map_of (columns t) cn = Some col \<and> \<not> is_primary_key col
     \<and> validate col nv cn = None
     \<and> (is_unique col \<longrightarrow> nv \<noteq> VNull \<longrightarrow>
          (\<forall>idx. map_of (indexes t) cn = Some idx \<longrightarrow>
             HashIndex_search idx nv = [] \<or> py_eq (hd (HashIndex_search idx nv)) rid))"
  by (induction ups)
     (auto simp: find_by_index_def split: if_splits option.splits list.splits)

lemma validate_updates_keys:
  "validate_updates t rid ups = None \<Longrightarrow> set (map fst ups) \<subseteq> set (map fst (columns t))"
proof -
  assume v: "validate_updates t rid ups = None"
  have "cn \<in> set (map fst (columns t))" if m: "(cn, nv) \<in> set ups" for cn nv
  proof -
    obtain col where "map_of (columns t) cn = Some col"
      using validate_updates_None [OF v m] by blast
    then have "(cn, col) \<in> set (columns t)" by (rule map_of_SomeD)
    then show ?thesis by force
  qed
  then show ?thesis by auto
qed

lemma update_row_cases:
  assumes k: "keys_ok t" and u: "update_row t rid ups = (t', res)"
  shows "(t' = t \<and> res = Inr False \<and> find_row_index t rid (rows t) 0 = None) \<or>
         (t' = t \<and> (\<exists>e. res = Inl e)) \<or>
         (\<exists>i nr ixs. find_row_index t rid (rows t) 0 = Some i \<and> i < length (rows t)
             \<and> is_live_row t rid (rows t ! i)
             \<and> validate_updates t rid ups = None
             \<and> apply_updates (rows t ! i) rid ups (rows t ! i) (indexes t) = ((nr, ixs), None)
             \<and> res = Inr True \<and> t' = updated_state t i nr ixs)"
proof (cases "find_row_index t rid (rows t) 0")
  case None
  then show ?thesis using u by (auto simp: update_row_def)
next
  case (Some i)
  from find_row_index_Some [OF Some]
  have i: "i < length (rows t)" and l: "is_live_row t rid (rows t ! i)" by auto
  show ?thesis
  proof (cases "validate_updates t rid ups")
    case (Some e)
    then show ?thesis using u \<open>find_row_index t rid (rows t) 0 = Some i\<close>
      by (auto simp: update_row_def Let_def)
  next
    case None
    have "set (map fst (columns t)) \<subseteq> set (map fst (rows t ! i))"
      using keys_okD(2) [OF k nth_mem [OF i]] by simp
    then have sub: "set (map fst ups) \<subseteq> set (map fst (rows t ! i))"
      using validate_updates_keys [OF None] by blast
    obtain nr ixs where a: "apply_updates (rows t ! i) rid ups (rows t ! i) (indexes t) = ((nr, ixs), None)"
      using apply_updates_no_error [OF sub] by blast
    show ?thesis
      using u \<open>find_row_index t rid (rows t) 0 = Some i\<close> None a i l
      by (auto simp: update_row_def Let_def updated_state_def)
  qed
qed

lemma keys_ok_update_row:
  assumes k: "keys_ok t" and u: "update_row t rid ups = (t', res)"
  shows "keys_ok t'"
proof -
  from update_row_cases [OF k u]
  consider "t' = t"
    | i nr ixs where "i < length (rows t)"
        "apply_updates (rows t ! i) rid ups (rows t ! i) (indexes t) = ((nr, ixs), None)"
        "t' = updated_state t i nr ixs"
    by auto
  then show ?thesis
  proof cases
    case 1
    then show ?thesis using k by simp
  next
    case 2
    from apply_updates_keys [OF 2(2)]
    have a: "fst ` set (rows t ! i) \<subseteq> fst ` set nr"
      and b: "fst ` set ixs = fst ` set (indexes t)" by auto
    have c: "fst ` set (columns t) \<subseteq> fst ` set (rows t ! i)"
      using keys_okD(2) [OF k nth_mem [OF 2(1)]] .
    have "fst ` set (columns t) \<subseteq> fst ` set r" if "r \<in> set ((rows t)[i := nr])" for r
    proof -
      have "r = nr \<or> r \<in> set (rows t)" using that set_update_subset_insert by fastforce
      then show ?thesis
      proof
        assume "r = nr"
        then show ?thesis using a c by blast
      next
        assume "r \<in> set (rows t)"
        then show ?thesis using keys_okD(2) [OF k] by blast
      qed
    qed
    then show ?thesis using 2(3) b keys_okD(3) [OF k] by (simp add: keys_ok_def updated_state_def)
  qed
qed

lemma keys_ok_create_index:
  assumes "keys_ok t" "create_index t cn = (t', res)"
  shows "keys_ok t'"
proof (cases "map_of (columns t) cn")
  case None
  then show ?thesis using assms by (auto simp: create_index_def)
next
  case (Some col)
  then have "(cn, col) \<in> set (columns t)" by (rule map_of_SomeD)
  then have cn: "cn \<in> fst ` set (columns t)" by force
  have "t' = t \<or> (\<exists>idx. t' = t\<lparr>indexes := AList.update cn idx (indexes t)\<rparr>)"
    using assms(2) Some by (auto simp: create_index_def split: if_splits sum.splits)
  then show ?thesis
  proof
    assume "t' = t"
    then show ?thesis using assms(1) by simp
  next
    assume "\<exists>idx. t' = t\<lparr>indexes := AList.update cn idx (indexes t)\<rparr>"
    then obtain idx where t': "t' = t\<lparr>indexes := AList.update cn idx (indexes t)\<rparr>" by blast
    have "fst ` set (AList.update cn idx (indexes t)) \<subseteq> fst ` set (columns t)"
      using cn keys_okD(3) [OF assms(1)] by (simp add: keys_update)
    then show ?thesis using t' assms(1) by (simp add: keys_ok_def)
  qed
qed

lemma keys_ok_drop_index:
  assumes "keys_ok t" "drop_index t cn = (t', res)"
  shows "keys_ok t'"
proof -
  have c: "t' = t \<or> t' = t\<lparr>indexes := AList.delete cn (indexes t)\<rparr>"
    using assms(2) by (auto simp: drop_index_def split: option.splits if_splits)
  have s: "fst ` set (AList.delete cn (indexes t)) \<subseteq> fst ` set (columns t)"
    using keys_delete [of cn "indexes t"] keys_okD(3) [OF assms(1)] by blast
  have "keys_ok (t\<lparr>indexes := AList.delete cn (indexes t)\<rparr>)"
    using s assms(1) unfolding keys_ok_def by simp
  then show ?thesis using c assms(1) by auto
qed

lemma keys_ok_step: "step t t' \<Longrightarrow> keys_ok t \<Longrightarrow> keys_ok t'"
  by (induction rule: step.induct)
     (auto intro: keys_ok_insert_row keys_ok_update_row keys_ok_delete_row
        keys_ok_create_index keys_ok_drop_index)

lemma keys_ok_init_indexes:
  "init_indexes cols t = Inr t' \<Longrightarrow> keys_ok t \<Longrightarrow> keys_ok t'"
proof (induction cols arbitrary: t)
  case Nil
  then show ?case by simp
next
  case (Cons col cols)
  show ?case
  proof (cases "is_primary_key col \<or> is_unique col")
    case False
    then show ?thesis using Cons by simp
  next
    case True
    obtain t1 res where c: "create_index t (name col) = (t1, res)"
      by (cases "create_index t (name col)")
    have "res = None \<and> init_indexes cols t1 = Inr t'"
      using Cons.prems(1) True c by (cases res) auto
    moreover have "keys_ok t1" using keys_ok_create_index [OF Cons.prems(2) c] .
    ultimately show ?thesis using Cons.IH by blast
  qed
qed

lemma keys_ok_Table: "Table nm cols = Inr t \<Longrightarrow> keys_ok t"
proof -
  assume a: "Table nm cols = Inr t"
  let ?t0 = "\<lparr>table_name = nm,
              columns = fold (\<lambda>col d. AList.update (name col) col d) cols [],
              column_order = map name cols,
              primary_key = (case filter is_primary_key cols of [] \<Rightarrow> None | col # rest \<Rightarrow> Some (name col)),
              rows = [],
              next_row_id = 0,
              deleted_row_ids = {},
              indexes = []\<rparr>"
  have "init_indexes cols ?t0 = Inr t"
    using a by (auto simp: Table_def Let_def split: if_splits)
  moreover have "keys_ok ?t0" by (simp add: keys_ok_def)
  ultimately show ?thesis by (rule keys_ok_init_indexes)
qed

lemma reachable_keys_ok: "reachable t \<Longrightarrow> keys_ok t"
  by (induction rule: reachable.induct) (auto intro: keys_ok_Table keys_ok_step)

section \<open>Atomicity of failed writes\<close>

lemma example_empty_reachable: "reachable example_empty"
proof -
  have "Table ''t'' example_columns = Inr example_empty" by code_simp
  then show ?thesis by (rule reachable_init)
qed

lemma example_one_reachable: "reachable example_one"
proof -
  have "insert_row example_empty [(''id'', VInt 1), (''e'', VStr ''a'')] = (example_one, Inr 0)"
    by code_simp
  then have "step example_empty example_one" by (rule step_insert)
  with example_empty_reachable show ?thesis by (rule reachable_step)
qed

lemma example_two_reachable: "reachable example_two"
proof -
  have "insert_row example_one [(''id'', VInt 2), (''e'', VStr ''b'')] = (example_two, Inr 1)"
    by code_simp
  then have "step example_one example_two" by (rule step_insert)
  with example_one_reachable show ?thesis by (rule reachable_step)
qed

lemma example_delete: "delete_row example_two (VInt 0) = (example_deleted, Inr True)"
  by code_simp

lemma example_deleted_reachable: "reachable example_deleted"
proof -
  have "step example_two example_deleted" using example_delete by (rule step_delete)
  with example_two_reachable show ?thesis by (rule reachable_step)
qed

text \<open>
  C3. If \<open>insert_row\<close> on a reachable table raises, the table it leaves is the table it
  found: the stored rows, the identifier counter, the deleted set and every index are
  unchanged.
\<close>

theorem failed_insert_changes_nothing:
  assumes "reachable t" and "insert_row t row_data = (t', Inl e)"
  shows "t' = t \<and> rows t' = rows t \<and> next_row_id t' = next_row_id t
       \<and> deleted_row_ids t' = deleted_row_ids t \<and> indexes t' = indexes t"
proof -
  have "keys_ok t" using assms(1) by (rule reachable_keys_ok)
  from insert_row_cases [OF this assms(2)] have "t' = t" by auto
  then show ?thesis by simp
qed

theorem failed_insert_changes_nothing_witness:
  "reachable example_one
   \<and> insert_row example_one [(''id'', VInt 1), (''e'', VStr ''b'')]
       = (example_one, Inl (DuplicateKeyError ''id'' (VInt 1)))
   \<and> snd (insert_row example_one [(''id'', VInt 2), (''e'', VInt 5)])
       = Inl (TypeValidationError ''e'' ''VARCHAR'' (VInt 5))
   \<and> indexes (fst (insert_row example_one [(''id'', VInt 2), (''e'', VInt 5)]))
       = indexes example_one"
proof -
  have a: "insert_row example_one [(''id'', VInt 1), (''e'', VStr ''b'')]
             = (example_one, Inl (DuplicateKeyError ''id'' (VInt 1)))"
    by code_simp
  have b: "snd (insert_row example_one [(''id'', VInt 2), (''e'', VInt 5)])
             = Inl (TypeValidationError ''e'' ''VARCHAR'' (VInt 5))"
    by code_simp
  have c: "insert_row example_one [(''id'', VInt 2), (''e'', VInt 5)]
             = (fst (insert_row example_one [(''id'', VInt 2), (''e'', VInt 5)]),
                Inl (TypeValidationError ''e'' ''VARCHAR'' (VInt 5)))"
    using b by (metis prod.collapse)
  show ?thesis
    using example_one_reachable a b
      failed_insert_changes_nothing [OF example_one_reachable c]
    by simp
qed

text \<open>
  C10. If \<open>update_row\<close> on a reachable table raises, the stored rows and every index
  are unchanged: the table it leaves is the table it found.
\<close>

theorem failed_update_changes_nothing:
  assumes "reachable t" and "update_row t row_id updates = (t', Inl e)"
  shows "t' = t \<and> rows t' = rows t \<and> indexes t' = indexes t"
proof -
  have "keys_ok t" using assms(1) by (rule reachable_keys_ok)
  from update_row_cases [OF this assms(2)] have "t' = t" by auto
  then show ?thesis by simp
qed

theorem failed_update_changes_nothing_witness:
  "reachable example_two
   \<and> snd (update_row example_two (VInt 1) [(''e'', VStr ''a'')])
       = Inl (DuplicateKeyError ''e'' (VStr ''a''))
   \<and> fst (update_row example_two (VInt 1) [(''e'', VStr ''a'')]) = example_two
   \<and> snd (update_row example_two (VInt 0) [(''id'', VInt 7)])
       = Inl (ConstraintViolationError ''id'')
   \<and> fst (update_row example_two (VInt 0) [(''id'', VInt 7)]) = example_two"
proof -
  have a: "snd (update_row example_two (VInt 1) [(''e'', VStr ''a'')])
             = Inl (DuplicateKeyError ''e'' (VStr ''a''))"
    by code_simp
  have b: "snd (update_row example_two (VInt 0) [(''id'', VInt 7)])
             = Inl (ConstraintViolationError ''id'')"
    by code_simp
  have a': "update_row example_two (VInt 1) [(''e'', VStr ''a'')]
              = (fst (update_row example_two (VInt 1) [(''e'', VStr ''a'')]),
                 Inl (DuplicateKeyError ''e'' (VStr ''a'')))"
    using a by (metis prod.collapse)
  have b': "update_row example_two (VInt 0) [(''id'', VInt 7)]
              = (fst (update_row example_two (VInt 0) [(''id'', VInt 7)]),
                 Inl (ConstraintViolationError ''id''))"
    using b by (metis prod.collapse)
  show ?thesis
    using example_two_reachable a b
      failed_update_changes_nothing [OF example_two_reachable a']
      failed_update_changes_nothing [OF example_two_reachable b']
    by simp
qed

section \<open>A column named like the reserved key\<close>

text \<open>
  C1 fails on the code. On the table \<open>r(_row_id INTEGER)\<close> with an index on its
  column, \<open>insert_row\<close> overwrites the column's value 5 with the row identifier 0
  and indexes the row under 0, and a scan strips the column from the row. For the
  predicate \<open>_row_id = 5\<close> the planner takes the index, finds no identifier under 5
  and returns no rows without evaluating anything, while filtering the full scan
  raises column-not-found on the first row.
\<close>

theorem planner_differs_on_row_id_column:
  "Table ''r'' rowid_columns = Inr (rowid_table [] [])
   \<and> create_index (rowid_table [] []) ''_row_id'' = (rowid_indexed [] [], None)
   \<and> insert_row (rowid_indexed [] []) [(''_row_id'', VInt 5)] = (rowid_one, Inr 0)
   \<and> scan rowid_one = [[]]
   \<and> get_matching_rows rowid_one (Some row_id_is_5) = Inr []
   \<and> filter_rows row_id_is_5 (scan rowid_one) = Inl (ColumnNotFoundError ''_row_id'' None)"
proof -
  have "Table ''r'' rowid_columns = Inr (rowid_table [] [])" by code_simp
  moreover have "create_index (rowid_table [] []) ''_row_id'' = (rowid_indexed [] [], None)"
    by code_simp
  moreover have "insert_row (rowid_indexed [] []) [(''_row_id'', VInt 5)] = (rowid_one, Inr 0)"
    by code_simp
  moreover have "scan rowid_one = [[]]" by code_simp
  moreover have "get_matching_rows rowid_one (Some row_id_is_5) = Inr []" by code_simp
  moreover have "filter_rows row_id_is_5 (scan rowid_one)
                   = Inl (ColumnNotFoundError ''_row_id'' None)" by code_simp
  ultimately show ?thesis by simp
qed

text \<open>
  C2 fails on the code. On the same table, \<open>update_row(0, {_row_id: 7})\<close> succeeds
  and writes 7 over the identifier of the stored row while it enters the old
  identifier 0 in the index under the key 7. Afterwards \<open>search(7)\<close> returns the
  identifier 0, which no stored row has: the only row is live and has the identifier 7.
\<close>

theorem index_names_no_live_row:
  "insert_row (rowid_indexed [] []) [(''_row_id'', VInt 5)] = (rowid_one, Inr 0)
   \<and> update_row rowid_one (VInt 0) [(''_row_id'', VInt 7)] = (rowid_updated, Inr True)
   \<and> rows rowid_updated = [[(''_row_id'', VInt 7)]]
   \<and> deleted_row_ids rowid_updated = {}
   \<and> map_option (\<lambda>idx. HashIndex_search idx (VInt 7)) (get_index rowid_updated ''_row_id'')
       = Some [VInt 0]
   \<and> get_row rowid_updated (VInt 0) = None
   \<and> get_row rowid_updated (VInt 7) = Some []"
proof -
  have "insert_row (rowid_indexed [] []) [(''_row_id'', VInt 5)] = (rowid_one, Inr 0)"
    by code_simp
  moreover have "update_row rowid_one (VInt 0) [(''_row_id'', VInt 7)] = (rowid_updated, Inr True)"
    by code_simp
  moreover have "rows rowid_updated = [[(''_row_id'', VInt 7)]]" by code_simp
  moreover have "deleted_row_ids rowid_updated = {}" by code_simp
  moreover have "map_option (\<lambda>idx. HashIndex_search idx (VInt 7))
                   (get_index rowid_updated ''_row_id'') = Some [VInt 0]" by code_simp
  moreover have "get_row rowid_updated (VInt 0) = None" by code_simp
  moreover have "get_row rowid_updated (VInt 7) = Some []" by code_simp
  ultimately show ?thesis by simp
qed

section \<open>Projection of a missing column\<close>

text \<open>
  C8 fails on the code: a SELECT that lists a column no row has returns the matching
  rows with that column left out, and raises nothing.
\<close>

theorem select_missing_column_returns_rows:
  "execute_select example_one (Columns [''missing'']) None = Inr [[]]
   \<and> execute_select example_one (Columns [''e'', ''missing'']) None = Inr [[(''e'', VStr ''a'')]]"
proof -
  have "execute_select example_one (Columns [''missing'']) None = Inr [[]]" by code_simp
  moreover have "execute_select example_one (Columns [''e'', ''missing'']) None
                   = Inr [[(''e'', VStr ''a'')]]" by code_simp
  ultimately show ?thesis by simp
qed

section \<open>Invariants of reachable tables with a valid schema\<close>

lemma py_eq_refl [simp]: "py_eq a a"
  by (cases a) (simp_all add: py_eq_def)

lemma py_eq_sym: "py_eq a b \<Longrightarrow> py_eq b a"
  by (auto simp: py_eq_def split: option.splits)

lemma py_eq_trans: "py_eq a b \<Longrightarrow> py_eq b c \<Longrightarrow> py_eq a c"
  by (auto simp: py_eq_def split: option.splits)

lemma py_eq_cong: "py_eq a b \<Longrightarrow> py_eq a c = py_eq b c"
  using py_eq_sym py_eq_trans by blast

lemma py_eq_cong2: "py_eq a b \<Longrightarrow> py_eq c a = py_eq c b"
  using py_eq_sym py_eq_trans by blast

lemma py_eq_VInt [simp]: "py_eq (VInt a) (VInt b) \<longleftrightarrow> a = b"
  by (simp add: py_eq_def)

lemma dict_get_cong: "py_eq k k' \<Longrightarrow> dict_get d k = dict_get d k'"
  by (induction d) (auto simp: py_eq_cong2)

lemma dict_get_set: "dict_get (dict_set d k x) k' = (if py_eq k k' then Some x else dict_get d k')"
  by (induction d) (auto, (meson py_eq_sym py_eq_trans)+)

lemma dict_get_del:
  "dict_ok d \<Longrightarrow> dict_get (dict_del d k) k' = (if py_eq k k' then None else dict_get d k')"
proof (induction d)
  case Nil
  then show ?case by simp
next
  case (Cons a d)
  obtain k0 v0 where a: "a = (k0, v0)" by (cases a)
  show ?case
  proof (cases "py_eq k0 k")
    case True
    have "py_eq k k' \<Longrightarrow> dict_get d k' = None"
      using Cons.prems a True dict_get_cong [of k0 k' d] py_eq_trans by auto
    moreover have "\<not> py_eq k k' \<Longrightarrow> \<not> py_eq k0 k'"
      using True py_eq_sym py_eq_trans by blast
    ultimately show ?thesis using a True by auto
  next
    case False
    have "py_eq k k' \<Longrightarrow> \<not> py_eq k0 k'"
      using False py_eq_sym py_eq_trans by blast
    then show ?thesis using a False Cons by auto
  qed
qed

lemma dict_ok_set: "dict_ok d \<Longrightarrow> dict_ok (dict_set d k x)"
  by (induction d) (auto simp: dict_get_set dest: py_eq_sym)

lemma dict_ok_del: "dict_ok d \<Longrightarrow> dict_ok (dict_del d k)"
  by (induction d) (auto simp: dict_get_del)

lemma keys_dict_set: "fst ` set (dict_set d k x) \<subseteq> insert k (fst ` set d)"
  by (induction d) (force split: if_splits)+

lemma keys_dict_del: "fst ` set (dict_del d k) \<subseteq> fst ` set d"
  by (induction d) (force split: if_splits)+

lemma search_HashIndex [simp]: "HashIndex_search (HashIndex c) v = []"
  by (simp add: HashIndex_search_def HashIndex_def)

lemma search_insert:
  "HashIndex_search (HashIndex_insert idx k rid) v =
     (if k \<noteq> VNull \<and> py_eq k v then HashIndex_search idx v @ [rid] else HashIndex_search idx v)"
  by (auto simp: HashIndex_search_def HashIndex_insert_def dict_get_set py_eq_null_iff2
        dict_get_cong [of k v] split: option.splits)

text \<open>On a list of integers \<open>list.remove\<close> of an integer is \<open>remove1\<close>.\<close>

lemma list_remove_ints:
  "\<forall>x \<in> set ids. \<exists>j. x = VInt j \<Longrightarrow>
   list_remove ids (VInt i) = (if VInt i \<in> set ids then Some (remove1 (VInt i) ids) else None)"
  by (induction ids) auto

lemma search_delete:
  assumes "dict_ok (hi_index idx)" and "\<forall>x \<in> set (HashIndex_search idx k). \<exists>j. x = VInt j"
  shows "HashIndex_search (HashIndex_delete idx k (VInt i)) v =
     (if k \<noteq> VNull \<and> py_eq k v then remove1 (VInt i) (HashIndex_search idx v)
      else HashIndex_search idx v)"
proof (cases "k = VNull")
  case True
  then show ?thesis by (simp add: HashIndex_delete_def)
next
  case False
  show ?thesis
  proof (cases "dict_get (hi_index idx) k")
    case None
    then show ?thesis using False
      by (auto simp: HashIndex_search_def HashIndex_delete_def py_eq_null_iff2
            dict_get_cong [of k v])
  next
    case (Some ids)
    then have ints: "\<forall>x \<in> set ids. \<exists>j. x = VInt j"
      using assms(2) False by (simp add: HashIndex_search_def)
    show ?thesis
      using False Some assms(1) list_remove_ints [OF ints, of i]
      by (auto simp: HashIndex_search_def HashIndex_delete_def dict_get_set dict_get_del
            py_eq_null_iff2 dict_get_cong [of k v] remove1_idem split: option.splits)
  qed
qed

lemma dict_ok_insert: "dict_ok (hi_index idx) \<Longrightarrow> dict_ok (hi_index (HashIndex_insert idx k rid))"
  by (auto simp: HashIndex_insert_def dict_ok_set split: option.splits)

lemma dict_ok_delete: "dict_ok (hi_index idx) \<Longrightarrow> dict_ok (hi_index (HashIndex_delete idx k rid))"
  by (auto simp: HashIndex_delete_def dict_ok_set dict_ok_del Let_def split: option.splits)

lemma null_free_insert:
  "VNull \<notin> fst ` set (hi_index idx) \<Longrightarrow> VNull \<notin> fst ` set (hi_index (HashIndex_insert idx k rid))"
  using keys_dict_set [of "hi_index idx" k]
  by (auto simp: HashIndex_insert_def split: option.splits)

lemma null_free_delete:
  "VNull \<notin> fst ` set (hi_index idx) \<Longrightarrow> VNull \<notin> fst ` set (hi_index (HashIndex_delete idx k rid))"
  using keys_dict_set [of "hi_index idx" k] keys_dict_del [of "hi_index idx" k]
  by (auto simp: HashIndex_delete_def Let_def split: option.splits)

lemma list_remove_length: "list_remove ids x = Some ys \<Longrightarrow> length ys \<le> length ids"
  by (induction ids arbitrary: ys) (auto split: if_splits)

lemma length_search_delete:
  assumes d: "dict_ok (hi_index idx)"
  shows "length (HashIndex_search (HashIndex_delete idx k rid) v) \<le> length (HashIndex_search idx v)"
proof (cases "k = VNull")
  case True
  then show ?thesis by (simp add: HashIndex_delete_def)
next
  case False
  show ?thesis
  proof (cases "dict_get (hi_index idx) k")
    case None
    then show ?thesis using False by (simp add: HashIndex_delete_def)
  next
    case (Some ids)
    show ?thesis
    proof (cases "list_remove ids rid")
      case None
      then show ?thesis using False Some by (simp add: HashIndex_delete_def)
    next
      case (Some ids')
      have l: "length ids' \<le> length ids" using Some by (rule list_remove_length)
      have g: "py_eq k v \<Longrightarrow> dict_get (hi_index idx) v = Some ids"
        using \<open>dict_get (hi_index idx) k = Some ids\<close> by (metis dict_get_cong)
      show ?thesis
        using False Some \<open>dict_get (hi_index idx) k = Some ids\<close> l g d
        by (auto simp: HashIndex_search_def HashIndex_delete_def dict_get_set dict_get_del
              split: option.splits)
    qed
  qed
qed

subsection \<open>Stored rows seen as pairs\<close>

lemma map_of_strip: "c \<noteq> ''_row_id'' \<Longrightarrow> map_of (strip_internal_id r) c = map_of r c"
  by (induction r) (auto simp: strip_internal_id_def)

lemma update_new_key: "k \<notin> fst ` set al \<Longrightarrow> AList.update k v al = al @ [(k, v)]"
  by (induction al) auto

lemma strip_no_id: "''_row_id'' \<notin> fst ` set r \<Longrightarrow> strip_internal_id r = r"
  by (induction r) (auto simp: strip_internal_id_def)

lemma strip_update_id:
  "''_row_id'' \<notin> fst ` set cr \<Longrightarrow> strip_internal_id (AList.update ''_row_id'' v cr) = cr"
  using strip_no_id [of cr] by (simp add: update_new_key) (simp add: strip_internal_id_def)

lemma row_get_update_id: "row_get (AList.update ''_row_id'' v cr) ''_row_id'' = v"
  by (simp add: row_get_def update_conv')

lemma inserted_fields [simp]:
  "columns (inserted t cr) = columns t"
  "deleted_row_ids (inserted t cr) = deleted_row_ids t"
  "primary_key (inserted t cr) = primary_key t"
  "next_row_id (inserted t cr) = next_row_id t + 1"
  by (simp_all add: inserted_def)

lemma srows_inserted:
  "''_row_id'' \<notin> fst ` set cr \<Longrightarrow>
   srows (inserted t cr) = srows t @ [(VInt (int (next_row_id t)), cr)]"
  by (simp add: srows_def inserted_def strip_update_id row_get_update_id)

lemma indexes_inserted:
  assumes "''_row_id'' \<notin> fst ` set (indexes t)"
  shows "indexes (inserted t cr) =
     map (\<lambda>e. (fst e, HashIndex_insert (snd e) (the (map_of cr (fst e))) (VInt (int (next_row_id t)))))
       (indexes t)"
proof -
  have "map_of (AList.update ''_row_id'' v cr) (fst e) = map_of cr (fst e)"
    if "e \<in> set (indexes t)" for e v
  proof -
    have "fst e \<noteq> ''_row_id''" using that assms by force
    then show ?thesis by (simp add: update_conv')
  qed
  then show ?thesis by (simp add: inserted_def)
qed

lemma schema_no_id: "schema_ok t \<Longrightarrow> ''_row_id'' \<notin> fst ` set (columns t)"
  by (auto simp: schema_ok_def)

lemma srow_id:
  assumes "rows_ok t" "(i, r) \<in> set (srows t)"
  shows "\<exists>k < next_row_id t. i = VInt (int k)"
proof -
  have "map fst (srows t) = map (\<lambda>k. VInt (int k)) [0..<next_row_id t]"
    using assms(1) by (simp add: rows_ok_def)
  then have "set (map fst (srows t)) = set (map (\<lambda>k. VInt (int k)) [0..<next_row_id t])"
    by (rule arg_cong)
  moreover have "i \<in> set (map fst (srows t))" using assms(2) by force
  ultimately show ?thesis by auto
qed

lemma distinct_row_ids: "rows_ok t \<Longrightarrow> distinct (map fst (srows t))"
  by (simp add: rows_ok_def distinct_map inj_on_def)

lemma row_id_unique:
  "rows_ok t \<Longrightarrow> (i, r) \<in> set (srows t) \<Longrightarrow> (i, r') \<in> set (srows t) \<Longrightarrow> r = r'"
  using distinct_row_ids [of t] eq_key_imp_eq_value by fastforce

lemma holders_less: "rows_ok t \<Longrightarrow> i \<in> holders t c v \<Longrightarrow> \<exists>k < next_row_id t. i = VInt (int k)"
  by (auto simp: holders_def live_row_def dest: srow_id)

lemma next_id_fresh: "rows_ok t \<Longrightarrow> VInt (int (next_row_id t)) \<notin> deleted_row_ids t"
  by (auto simp: rows_ok_def)

lemma holders_inserted:
  assumes "rows_ok t" "''_row_id'' \<notin> fst ` set cr"
  shows "holders (inserted t cr) c v =
           holders t c v \<union>
             (if \<exists>x. map_of cr c = Some x \<and> x \<noteq> VNull \<and> py_eq x v
              then {VInt (int (next_row_id t))} else {})"
  using next_id_fresh [OF assms(1)]
  by (auto simp: holders_def live_row_def srows_inserted [OF assms(2)])

lemma schema_ok_inserted: "schema_ok t \<Longrightarrow> schema_ok (inserted t cr)"
  by (simp add: schema_ok_def)

lemma rows_ok_inserted:
  assumes "schema_ok t" "rows_ok t" "map fst cr = map fst (columns t)"
  shows "rows_ok (inserted t cr)"
proof -
  have n: "''_row_id'' \<notin> fst ` set cr"
    using schema_no_id [OF assms(1)] assms(3) by (metis set_map)
  show ?thesis
    using assms(2,3) by (auto simp: rows_ok_def srows_inserted [OF n] less_Suc_eq)
qed

lemma index_ok_inserted:
  assumes ro: "rows_ok t" and n: "''_row_id'' \<notin> fst ` set cr"
    and io: "index_ok t c idx" and v: "map_of cr c = Some x"
  shows "index_ok (inserted t cr) c (HashIndex_insert idx x (VInt (int (next_row_id t))))"
proof -
  have d: "dict_ok (hi_index idx)" and nf: "VNull \<notin> fst ` set (hi_index idx)"
    and s: "\<And>w. distinct (HashIndex_search idx w) \<and> set (HashIndex_search idx w) = holders t c w"
    using io by (auto simp: index_ok_def)
  have fresh: "\<And>w. VInt (int (next_row_id t)) \<notin> set (HashIndex_search idx w)"
    using s holders_less [OF ro] by fastforce
  show ?thesis
    unfolding index_ok_def
    using dict_ok_insert [OF d] null_free_insert [OF nf] s fresh v
    by (auto simp: search_insert holders_inserted [OF ro n])
qed

lemma index_keys_no_id:
  "schema_ok t \<Longrightarrow> indexes_ok t \<Longrightarrow> ''_row_id'' \<notin> fst ` set (indexes t)"
  by (fastforce simp: schema_ok_def indexes_ok_def)

lemma indexes_ok_inserted:
  assumes so: "schema_ok t" and ro: "rows_ok t" and io: "indexes_ok t"
    and keys: "map fst cr = map fst (columns t)"
  shows "indexes_ok (inserted t cr)"
proof -
  have n: "''_row_id'' \<notin> fst ` set cr"
    using schema_no_id [OF so] keys by (metis set_map)
  note ix = indexes_inserted [OF index_keys_no_id [OF so io], of cr]
  have dist: "distinct (map fst (indexes (inserted t cr)))"
    using io by (simp add: indexes_ok_def ix comp_def)
  have each: "\<And>e. e \<in> set (indexes (inserted t cr)) \<Longrightarrow>
     fst e \<in> set (map fst (columns (inserted t cr))) \<and> index_ok (inserted t cr) (fst e) (snd e)"
  proof -
    fix e assume "e \<in> set (indexes (inserted t cr))"
    then obtain e0 where e0: "e0 \<in> set (indexes t)"
      and e: "e = (fst e0, HashIndex_insert (snd e0) (the (map_of cr (fst e0))) (VInt (int (next_row_id t))))"
      by (auto simp: ix)
    have c: "fst e0 \<in> set (map fst (columns t))" and ok: "index_ok t (fst e0) (snd e0)"
      using io e0 by (auto simp: indexes_ok_def)
    obtain x where x: "map_of cr (fst e0) = Some x"
      using c keys map_of_keys [of "fst e0" cr] by auto
    show "fst e \<in> set (map fst (columns (inserted t cr))) \<and> index_ok (inserted t cr) (fst e) (snd e)"
      using index_ok_inserted [OF ro n ok x] c e x by simp
  qed
  show ?thesis unfolding indexes_ok_def using dist each by blast
qed

lemma search_cong: "py_eq k k' \<Longrightarrow> HashIndex_search idx k = HashIndex_search idx k'"
  by (auto simp: HashIndex_search_def py_eq_null_iff py_eq_null_iff2 dict_get_cong [of k k'])

lemma check_unique_None:
  "check_unique t cols cr = None \<Longrightarrow> (cn, col) \<in> set cols \<Longrightarrow> is_unique col \<Longrightarrow>
   \<not> is_primary_key col \<Longrightarrow> map_of cr cn = Some v \<Longrightarrow> v \<noteq> VNull \<Longrightarrow>
   map_of (indexes t) cn = Some idx \<Longrightarrow> HashIndex_search idx v = []"
  by (induction cols)
     (auto simp: find_by_index_def split: if_splits option.splits list.splits)

lemma check_primary_key_None:
  "check_primary_key t cr = None \<Longrightarrow> primary_key t = Some pk \<Longrightarrow> pk \<noteq> [] \<Longrightarrow>
   map_of cr pk = Some v \<Longrightarrow> v \<noteq> VNull \<Longrightarrow>
   map_of (indexes t) pk = Some idx \<Longrightarrow> HashIndex_search idx v = []"
  by (auto simp: check_primary_key_def find_by_index_def split: if_splits option.splits list.splits)

lemma map_of_map_snd:
  "map_of (map (\<lambda>e. (fst e, f e)) xs) k = map_option (\<lambda>v. f (k, v)) (map_of xs k)"
  by (induction xs) auto

lemma constraints_ok_inserted:
  assumes so: "schema_ok t" and ro: "rows_ok t" and io: "indexes_ok t" and co: "constraints_ok t"
    and keys: "map fst cr = map fst (columns t)"
    and pk: "check_primary_key t cr = None" and un: "check_unique t (columns t) cr = None"
  shows "constraints_ok (inserted t cr)"
proof -
  let ?n = "VInt (int (next_row_id t))"
  note ix = indexes_inserted [OF index_keys_no_id [OF so io], of cr]
  have uniq: "\<exists>idx. map_of (indexes (inserted t cr)) cn = Some idx
                 \<and> (\<forall>v. length (HashIndex_search idx v) \<le> 1)"
    if e: "(cn, col) \<in> set (columns t)" and u: "is_unique col" for cn col
  proof -
    obtain idx where idx: "map_of (indexes t) cn = Some idx"
      and le: "\<And>v. length (HashIndex_search idx v) \<le> 1"
      using co e u by (fastforce simp: constraints_ok_def)
    have cn: "cn \<in> set (map fst (columns t))" using e by force
    then have cne: "cn \<noteq> []" using so by (auto simp: schema_ok_def)
    obtain x where x: "map_of cr cn = Some x" using cn keys map_of_keys [of cn cr] by auto
    have empty: "HashIndex_search idx x = []" if "x \<noteq> VNull"
    proof (cases "is_primary_key col")
      case True
      then have "primary_key t = Some cn" using co e by (fastforce simp: constraints_ok_def)
      then show ?thesis using check_primary_key_None [OF pk _ cne x that idx] by simp
    next
      case False
      then show ?thesis using check_unique_None [OF un e u False x that idx] by simp
    qed
    have "map_of (indexes (inserted t cr)) cn = Some (HashIndex_insert idx x ?n)"
      using idx x by (simp add: ix map_of_map_snd)
    moreover have "length (HashIndex_search (HashIndex_insert idx x ?n) v) \<le> 1" for v
      using le [of v] empty search_cong [of x v idx] by (auto simp: search_insert)
    ultimately show ?thesis by blast
  qed
  show ?thesis
    unfolding constraints_ok_def
  proof (intro conjI ballI allI impI)
    fix entry assume "entry \<in> set (columns (inserted t cr))" "is_unique (snd entry)"
    then show "\<exists>idx. map_of (indexes (inserted t cr)) (fst entry) = Some idx
                 \<and> (\<forall>v. length (HashIndex_search idx v) \<le> 1)"
      using uniq [of "fst entry" "snd entry"] by simp
  next
    fix entry assume "entry \<in> set (columns (inserted t cr))"
    then show "is_primary_key (snd entry) = (primary_key (inserted t cr) = Some (fst entry))"
      using co by (simp add: constraints_ok_def)
  next
    fix pk assume "primary_key (inserted t cr) = Some pk"
    then show "pk \<in> set (map fst (columns (inserted t cr)))"
      using co by (simp add: constraints_ok_def)
  qed
qed

lemma keys_strip: "fst ` set (strip_internal_id r) \<subseteq> fst ` set r"
  by (auto simp: strip_internal_id_def)

lemma table_inv_keys_ok:
  assumes "table_inv t"
  shows "keys_ok t"
proof -
  have ro: "rows_ok t" and io: "indexes_ok t" using assms by (auto simp: table_inv_def)
  have "fst ` set (columns t) \<subseteq> fst ` set r" if "r \<in> set (rows t)" for r
  proof -
    have "(row_get r ''_row_id'', strip_internal_id r) \<in> set (srows t)"
      using that by (force simp: srows_def)
    then have "map fst (strip_internal_id r) = map fst (columns t)"
      using ro by (fastforce simp: rows_ok_def)
    then have "fst ` set (columns t) = fst ` set (strip_internal_id r)" by (metis set_map)
    then show ?thesis using keys_strip [of r] by simp
  qed
  moreover have "fst ` set (indexes t) \<subseteq> fst ` set (columns t)"
  proof
    fix c assume "c \<in> fst ` set (indexes t)"
    then obtain e where "e \<in> set (indexes t)" "c = fst e" by auto
    then have "c \<in> set (map fst (columns t))" using io by (simp add: indexes_ok_def)
    then show "c \<in> fst ` set (columns t)" by simp
  qed
  ultimately show ?thesis by (simp add: keys_ok_def)
qed

lemma table_inv_insert_row:
  assumes "table_inv t" "insert_row t rd = (t', res)"
  shows "table_inv t'"
proof -
  have so: "schema_ok t" and ro: "rows_ok t" and io: "indexes_ok t" and co: "constraints_ok t"
    using assms(1) by (auto simp: table_inv_def)
  from insert_row_cases [OF table_inv_keys_ok [OF assms(1)] assms(2)] show ?thesis
  proof
    assume "t' = t \<and> (\<exists>e. res = Inl e)"
    then show ?thesis using assms(1) by simp
  next
    assume "\<exists>cr. build_complete_row (columns t) rd = Inr cr
               \<and> check_primary_key t cr = None
               \<and> check_unique t (columns t) cr = None
               \<and> res = Inr (next_row_id t) \<and> t' = inserted t cr"
    then obtain cr where b: "build_complete_row (columns t) rd = Inr cr"
      and pk: "check_primary_key t cr = None" and un: "check_unique t (columns t) cr = None"
      and t': "t' = inserted t cr" by blast
    have keys: "map fst cr = map fst (columns t)" using b by (rule build_complete_row_keys)
    show ?thesis
      unfolding table_inv_def t'
      using schema_ok_inserted [OF so] rows_ok_inserted [OF so ro keys]
        indexes_ok_inserted [OF so ro io keys] constraints_ok_inserted [OF so ro io co keys pk un]
      by simp
  qed
qed


subsection \<open>Deleting a row\<close>

lemma py_in_ints:
  "\<forall>d \<in> s. \<exists>k. d = VInt k \<Longrightarrow> py_in (VInt i) s \<longleftrightarrow> VInt i \<in> s"
  by (auto simp: py_in_def intro: bexI [where x = "VInt i"])

lemma deleted_ints: "rows_ok t \<Longrightarrow> \<forall>d \<in> deleted_row_ids t. \<exists>k. d = VInt k"
  by (auto simp: rows_ok_def)

lemma in_srows: "r \<in> set (rows t) \<Longrightarrow> (row_get r ''_row_id'', strip_internal_id r) \<in> set (srows t)"
  by (force simp: srows_def)

lemma is_live_row_iff:
  assumes ro: "rows_ok t" and r: "r \<in> set (rows t)"
  shows "is_live_row t (VInt i) r \<longleftrightarrow>
           row_get r ''_row_id'' = VInt i \<and> VInt i \<notin> deleted_row_ids t"
proof -
  obtain k where "row_get r ''_row_id'' = VInt (int k)"
    using srow_id [OF ro in_srows [OF r]] by blast
  then show ?thesis
    by (simp add: is_live_row_def py_in_ints [OF deleted_ints [OF ro]])
qed

lemma live_of_is_live:
  assumes ro: "rows_ok t" and r: "r \<in> set (rows t)" and l: "is_live_row t (VInt i) r"
  shows "live_row t (VInt i) (strip_internal_id r)"
  using is_live_row_iff [OF ro r, of i] l in_srows [OF r] by (auto simp: live_row_def)

lemma deleted_fields [simp]:
  "columns (deleted_state t rid r) = columns t"
  "rows (deleted_state t rid r) = rows t"
  "srows (deleted_state t rid r) = srows t"
  "deleted_row_ids (deleted_state t rid r) = insert rid (deleted_row_ids t)"
  "primary_key (deleted_state t rid r) = primary_key t"
  "next_row_id (deleted_state t rid r) = next_row_id t"
  by (simp_all add: deleted_state_def srows_def)

lemma indexes_deleted:
  assumes "''_row_id'' \<notin> fst ` set (indexes t)"
  shows "indexes (deleted_state t rid r) =
     map (\<lambda>e. (fst e, HashIndex_delete (snd e) (the (map_of (strip_internal_id r) (fst e))) rid))
       (indexes t)"
proof -
  have "map_of (strip_internal_id r) (fst e) = map_of r (fst e)" if "e \<in> set (indexes t)" for e
  proof -
    have "fst e \<noteq> ''_row_id''" using that assms by force
    then show ?thesis by (rule map_of_strip)
  qed
  then show ?thesis by (simp add: deleted_state_def)
qed

lemma holders_deleted:
  "holders (deleted_state t rid r) c v = holders t c v - {rid}"
  by (auto simp: holders_def live_row_def)

lemma holders_live_iff:
  assumes "rows_ok t" "live_row t rid r"
  shows "rid \<in> holders t c v \<longleftrightarrow> (\<exists>x. map_of r c = Some x \<and> x \<noteq> VNull \<and> py_eq x v)"
  using assms row_id_unique [OF assms(1)]
  by (auto simp: holders_def live_row_def)

lemma index_ids_ints:
  assumes "rows_ok t" "index_ok t c idx"
  shows "\<forall>x \<in> set (HashIndex_search idx k). \<exists>j. x = VInt j"
proof
  fix x assume "x \<in> set (HashIndex_search idx k)"
  then have "x \<in> holders t c k" using assms(2) by (simp add: index_ok_def)
  then show "\<exists>j. x = VInt j" using holders_less [OF assms(1)] by blast
qed

lemma index_ok_deleted:
  assumes ro: "rows_ok t" and lr: "live_row t (VInt i) r" and io: "index_ok t c idx"
    and x: "map_of r c = Some x"
  shows "index_ok (deleted_state t (VInt i) r0) c (HashIndex_delete idx x (VInt i))"
proof -
  have d: "dict_ok (hi_index idx)" and nf: "VNull \<notin> fst ` set (hi_index idx)"
    and s: "\<And>w. distinct (HashIndex_search idx w) \<and> set (HashIndex_search idx w) = holders t c w"
    using io by (auto simp: index_ok_def)
  have notin: "VInt i \<notin> holders t c w" if "\<not> (x \<noteq> VNull \<and> py_eq x w)" for w
    using that holders_live_iff [OF ro lr, of c w] x by auto
  show ?thesis
    unfolding index_ok_def
    using dict_ok_delete [OF d] null_free_delete [OF nf] s notin
    by (auto simp: search_delete [OF d index_ids_ints [OF ro io]] holders_deleted)
qed

lemma rows_ok_deleted:
  "rows_ok t \<Longrightarrow> live_row t rid r \<Longrightarrow> rows_ok (deleted_state t rid r0)"
  using srow_id [of t rid r]
  by (auto simp: rows_ok_def live_row_def)

lemma indexes_ok_deleted:
  assumes so: "schema_ok t" and ro: "rows_ok t" and io: "indexes_ok t"
    and lr: "live_row t (VInt i) (strip_internal_id r)"
  shows "indexes_ok (deleted_state t (VInt i) r)"
proof -
  let ?r = "strip_internal_id r"
  note ix = indexes_deleted [OF index_keys_no_id [OF so io], of "VInt i" r]
  have keys: "map fst ?r = map fst (columns t)"
    using lr ro by (auto simp: rows_ok_def live_row_def)
  have dist: "distinct (map fst (indexes (deleted_state t (VInt i) r)))"
    using io by (simp add: indexes_ok_def ix comp_def)
  have each: "fst e \<in> set (map fst (columns (deleted_state t (VInt i) r)))
      \<and> index_ok (deleted_state t (VInt i) r) (fst e) (snd e)"
    if "e \<in> set (indexes (deleted_state t (VInt i) r))" for e
  proof -
    from that obtain e0 where e0: "e0 \<in> set (indexes t)"
      and e: "e = (fst e0, HashIndex_delete (snd e0) (the (map_of ?r (fst e0))) (VInt i))"
      by (auto simp: ix)
    have c: "fst e0 \<in> set (map fst (columns t))" and ok: "index_ok t (fst e0) (snd e0)"
      using io e0 by (auto simp: indexes_ok_def)
    obtain x where x: "map_of ?r (fst e0) = Some x"
      using c keys map_of_keys [of "fst e0" ?r] by auto
    show ?thesis
      using index_ok_deleted [OF ro lr ok x, of r] c e x by simp
  qed
  show ?thesis unfolding indexes_ok_def using dist each by blast
qed

lemma constraints_ok_deleted:
  assumes so: "schema_ok t" and io: "indexes_ok t" and co: "constraints_ok t"
  shows "constraints_ok (deleted_state t rid r)"
proof -
  let ?r = "strip_internal_id r"
  note ix = indexes_deleted [OF index_keys_no_id [OF so io], of rid r]
  have uniq: "\<exists>idx. map_of (indexes (deleted_state t rid r)) cn = Some idx
                 \<and> (\<forall>v. length (HashIndex_search idx v) \<le> 1)"
    if e: "(cn, col) \<in> set (columns t)" and u: "is_unique col" for cn col
  proof -
    obtain idx where idx: "map_of (indexes t) cn = Some idx"
      and le: "\<And>v. length (HashIndex_search idx v) \<le> 1"
      using co e u by (fastforce simp: constraints_ok_def)
    have "(cn, idx) \<in> set (indexes t)" using idx by (rule map_of_SomeD)
    then have d: "dict_ok (hi_index idx)" using io by (fastforce simp: indexes_ok_def index_ok_def)
    have "map_of (indexes (deleted_state t rid r)) cn
            = Some (HashIndex_delete idx (the (map_of ?r cn)) rid)"
      using idx by (simp add: ix map_of_map_snd)
    moreover have "length (HashIndex_search (HashIndex_delete idx (the (map_of ?r cn)) rid) v) \<le> 1" for v
      using le [of v] length_search_delete [OF d, of "the (map_of ?r cn)" rid v] by linarith
    ultimately show ?thesis by blast
  qed
  show ?thesis
    unfolding constraints_ok_def
  proof (intro conjI ballI allI impI)
    fix entry assume "entry \<in> set (columns (deleted_state t rid r))" "is_unique (snd entry)"
    then show "\<exists>idx. map_of (indexes (deleted_state t rid r)) (fst entry) = Some idx
                 \<and> (\<forall>v. length (HashIndex_search idx v) \<le> 1)"
      using uniq [of "fst entry" "snd entry"] by simp
  next
    fix entry assume "entry \<in> set (columns (deleted_state t rid r))"
    then show "is_primary_key (snd entry) = (primary_key (deleted_state t rid r) = Some (fst entry))"
      using co by (simp add: constraints_ok_def)
  next
    fix pk assume "primary_key (deleted_state t rid r) = Some pk"
    then show "pk \<in> set (map fst (columns (deleted_state t rid r)))"
      using co by (simp add: constraints_ok_def)
  qed
qed

lemma table_inv_delete_row:
  assumes "table_inv t" "delete_row t (VInt i) = (t', res)"
  shows "table_inv t'"
proof -
  have so: "schema_ok t" and ro: "rows_ok t" and io: "indexes_ok t" and co: "constraints_ok t"
    using assms(1) by (auto simp: table_inv_def)
  from delete_row_cases [OF table_inv_keys_ok [OF assms(1)] assms(2)] show ?thesis
  proof
    assume "t' = t \<and> res = Inr False \<and> find (is_live_row t (VInt i)) (rows t) = None"
    then show ?thesis using assms(1) by simp
  next
    assume "\<exists>r. find (is_live_row t (VInt i)) (rows t) = Some r \<and> r \<in> set (rows t)
              \<and> is_live_row t (VInt i) r \<and> res = Inr True \<and> t' = deleted_state t (VInt i) r"
    then obtain r where r: "r \<in> set (rows t)" and l: "is_live_row t (VInt i) r"
      and t': "t' = deleted_state t (VInt i) r" by blast
    have lr: "live_row t (VInt i) (strip_internal_id r)" using live_of_is_live [OF ro r l] .
    have "schema_ok (deleted_state t (VInt i) r)" using so by (simp add: schema_ok_def)
    then show ?thesis
      unfolding table_inv_def t'
      using rows_ok_deleted [OF ro lr] indexes_ok_deleted [OF so ro io lr]
        constraints_ok_deleted [OF so io co]
      by simp
  qed
qed


subsection \<open>Updating a row\<close>

lemma apply_updates_result:
  assumes "distinct (map fst ups)" "set (map fst ups) \<subseteq> set (map fst old)"
    and "apply_updates old rid ups nr0 ixs = ((nr, ixs'), None)"
  shows "(\<forall>c. map_of nr c = (case map_of ups c of Some nv \<Rightarrow> Some nv | None \<Rightarrow> map_of nr0 c))
       \<and> (set (map fst ups) \<subseteq> set (map fst nr0) \<longrightarrow> map fst nr = map fst nr0)
       \<and> map fst ixs' = map fst ixs
       \<and> (\<forall>c. map_of ixs' c =
            (case map_of ixs c of
               None \<Rightarrow> None
             | Some idx \<Rightarrow>
                 (case map_of ups c of
                    None \<Rightarrow> Some idx
                  | Some nv \<Rightarrow>
                      Some (HashIndex_insert (HashIndex_delete idx (the (map_of old c)) rid) nv rid))))"
  using assms
proof (induction ups arbitrary: nr0 ixs)
  case Nil
  then show ?case by (auto split: option.splits)
next
  case (Cons a ups)
  obtain cn nv where a: "a = (cn, nv)" by (cases a)
  obtain ov where ov: "map_of old cn = Some ov"
    using Cons.prems(2) a map_of_keys [of cn old] by auto
  let ?nr1 = "AList.update cn nv nr0"
  let ?ixs1 = "(case map_of ixs cn of None \<Rightarrow> ixs
     | Some idx \<Rightarrow> AList.update cn (HashIndex_insert (HashIndex_delete idx ov rid) nv rid) ixs)"
  have step: "apply_updates old rid ups ?nr1 ?ixs1 = ((nr, ixs'), None)"
    using Cons.prems(3) a ov by simp
  have d: "distinct (map fst ups)" and notin: "map_of ups cn = None"
    and sub: "set (map fst ups) \<subseteq> set (map fst old)"
    using Cons.prems(1,2) a by (auto simp: map_of_eq_None_iff)
  note IH = Cons.IH [OF d sub step]
  have k1: "map fst ?ixs1 = map fst ixs"
  proof (cases "map_of ixs cn")
    case None
    then show ?thesis by simp
  next
    case (Some idx)
    then have "(cn, idx) \<in> set ixs" by (rule map_of_SomeD)
    then have "cn \<in> set (map fst ixs)" by force
    then show ?thesis using Some by (simp add: update_keys)
  qed
  have m1: "map_of ?ixs1 c = (if c = cn then map_option (\<lambda>idx. HashIndex_insert (HashIndex_delete idx ov rid) nv rid) (map_of ixs cn) else map_of ixs c)" for c
    by (auto simp: update_conv' split: option.splits)
  have p1: "\<forall>c. map_of nr c = (case map_of (a # ups) c of Some nv \<Rightarrow> Some nv | None \<Rightarrow> map_of nr0 c)"
    using IH notin a by (auto simp: update_conv' split: option.splits)
  have p2: "set (map fst (a # ups)) \<subseteq> set (map fst nr0) \<longrightarrow> map fst nr = map fst nr0"
    using IH a by (auto simp: update_keys)
  have p3: "map fst ixs' = map fst ixs" using IH k1 by simp
  have p4: "\<forall>c. map_of ixs' c =
            (case map_of ixs c of
               None \<Rightarrow> None
             | Some idx \<Rightarrow>
                 (case map_of (a # ups) c of
                    None \<Rightarrow> Some idx
                  | Some nv \<Rightarrow>
                      Some (HashIndex_insert (HashIndex_delete idx (the (map_of old c)) rid) nv rid)))"
    using IH notin a ov m1 by (auto split: option.splits)
  show ?case using p1 p2 p3 p4 by blast
qed

lemma in_set_row_update:
  assumes d: "distinct (map fst xs)" and i: "i < length xs" and k: "fst (xs ! i) = k"
  shows "(j, r) \<in> set (xs[i := (k, nr)]) \<longleftrightarrow> (if j = k then r = nr else (j, r) \<in> set xs)"
proof -
  have dx: "distinct xs" using d by (simp add: distinct_map)
  have s: "set (xs[i := (k, nr)]) = insert (k, nr) (set xs - {xs ! i})"
    using set_update_distinct [OF dx i] .
  have mem: "xs ! i \<in> set xs" using i by simp
  have u: "(k, r') \<in> set xs \<Longrightarrow> (k, r') = xs ! i" for r'
    using d mem k eq_key_imp_eq_value [of xs k r' "snd (xs ! i)"] by (metis prod.collapse)
  show ?thesis
    unfolding s using u k by (cases "xs ! i") auto
qed

lemma indexes_ok_entry:
  "indexes_ok t \<Longrightarrow> (c, idx) \<in> set (indexes t) \<Longrightarrow>
   c \<in> set (map fst (columns t)) \<and> index_ok t c idx"
  by (force simp: indexes_ok_def)

text \<open>
  In the lemmas below \<open>t'\<close> is \<open>t\<close> with the stored row at position \<open>i\<close>, whose
  identifier is \<open>rid\<close>, replaced by \<open>nr\<close> under the same identifier.
\<close>

lemma holders_updated:
  assumes ro: "rows_ok t" and i: "i < length (srows t)" and old: "srows t ! i = (rid, old)"
    and lr: "live_row t rid old"
    and s': "srows t' = (srows t)[i := (rid, nr)]" and d': "deleted_row_ids t' = deleted_row_ids t"
  shows "holders t' c v =
           (holders t c v - {rid}) \<union>
             (if \<exists>x. map_of nr c = Some x \<and> x \<noteq> VNull \<and> py_eq x v then {rid} else {})"
proof -
  have k: "fst (srows t ! i) = rid" using old by simp
  have nd: "rid \<notin> deleted_row_ids t" using lr by (simp add: live_row_def)
  have live: "live_row t' j r \<longleftrightarrow> (if j = rid then r = nr else live_row t j r)" for j r
    using in_set_row_update [OF distinct_row_ids [OF ro] i k, of j r nr] nd
    by (auto simp: live_row_def s' d')
  show ?thesis
    unfolding holders_def live by auto
qed

lemma rows_ok_updated:
  assumes ro: "rows_ok t" and i: "i < length (srows t)" and old: "srows t ! i = (rid, old)"
    and keys: "map fst nr = map fst old"
    and s': "srows t' = (srows t)[i := (rid, nr)]" and d': "deleted_row_ids t' = deleted_row_ids t"
    and n': "next_row_id t' = next_row_id t" and c': "columns t' = columns t"
  shows "rows_ok t'"
proof -
  have m: "map fst ((srows t)[i := (rid, nr)]) = map fst (srows t)"
    using i old by (simp add: map_update list_update_same_conv)
  have ko: "map fst old = map fst (columns t)"
    using ro nth_mem [OF i] old by (auto simp: rows_ok_def)
  have "\<forall>stored \<in> set ((srows t)[i := (rid, nr)]). map fst (snd stored) = map fst (columns t)"
    using ro keys ko set_update_subset_insert [of "srows t" i "(rid, nr)"]
    by (auto simp: rows_ok_def)
  then show ?thesis using ro m by (simp add: rows_ok_def s' d' n' c')
qed

text \<open>An index after the row's value in its column moved from \<open>ov\<close> to \<open>nv\<close>.\<close>

lemma index_ok_updated_changed:
  assumes ro: "rows_ok t" and i: "i < length (srows t)" and old: "srows t ! i = (VInt k, old)"
    and lr: "live_row t (VInt k) old" and io: "index_ok t c idx"
    and ov: "map_of old c = Some ov" and nv: "map_of nr c = Some nv"
    and s': "srows t' = (srows t)[i := (VInt k, nr)]" and d': "deleted_row_ids t' = deleted_row_ids t"
  shows "index_ok t' c (HashIndex_insert (HashIndex_delete idx ov (VInt k)) nv (VInt k))"
proof -
  have d: "dict_ok (hi_index idx)" and nf: "VNull \<notin> fst ` set (hi_index idx)"
    and s: "\<And>w. distinct (HashIndex_search idx w) \<and> set (HashIndex_search idx w) = holders t c w"
    using io by (auto simp: index_ok_def)
  have notin: "VInt k \<notin> holders t c w" if "\<not> (ov \<noteq> VNull \<and> py_eq ov w)" for w
    using that holders_live_iff [OF ro lr, of c w] ov by auto
  let ?d = "HashIndex_delete idx ov (VInt k)"
  have sd: "distinct (HashIndex_search ?d w) \<and> set (HashIndex_search ?d w) = holders t c w - {VInt k}" for w
    using s [of w] notin [of w] by (auto simp: search_delete [OF d index_ids_ints [OF ro io]])
  show ?thesis
    unfolding index_ok_def
    using dict_ok_insert [OF dict_ok_delete [OF d]] null_free_insert [OF null_free_delete [OF nf]]
      sd nv
    by (auto simp: search_insert holders_updated [OF ro i old lr s' d'])
qed

lemma index_ok_updated_same:
  assumes ro: "rows_ok t" and i: "i < length (srows t)" and old: "srows t ! i = (rid, old)"
    and lr: "live_row t rid old" and io: "index_ok t c idx"
    and same: "map_of nr c = map_of old c"
    and s': "srows t' = (srows t)[i := (rid, nr)]" and d': "deleted_row_ids t' = deleted_row_ids t"
  shows "index_ok t' c idx"
proof -
  have "holders t' c w = holders t c w" for w
    using holders_live_iff [OF ro lr, of c w] same
    by (auto simp: holders_updated [OF ro i old lr s' d'])
  then show ?thesis using io by (simp add: index_ok_def)
qed

lemma indexes_ok_updated:
  assumes ro: "rows_ok t" and io: "indexes_ok t"
    and i: "i < length (srows t)" and old: "srows t ! i = (VInt k, old)"
    and lr: "live_row t (VInt k) old"
    and s': "srows t' = (srows t)[i := (VInt k, nr)]" and d': "deleted_row_ids t' = deleted_row_ids t"
    and c': "columns t' = columns t"
    and nrc: "\<And>c. map_of nr c = (case map_of ups c of Some nv \<Rightarrow> Some nv | None \<Rightarrow> map_of old c)"
    and keys: "map fst (indexes t') = map fst (indexes t)"
    and ixc: "\<And>c. map_of (indexes t') c =
            (case map_of (indexes t) c of
               None \<Rightarrow> None
             | Some idx \<Rightarrow>
                 (case map_of ups c of
                    None \<Rightarrow> Some idx
                  | Some nv \<Rightarrow>
                      Some (HashIndex_insert (HashIndex_delete idx (the (map_of old c)) (VInt k)) nv (VInt k))))"
  shows "indexes_ok t'"
proof -
  have ko: "map fst old = map fst (columns t)"
    using ro lr by (auto simp: rows_ok_def live_row_def)
  have d: "distinct (map fst (indexes t'))" using io keys by (simp add: indexes_ok_def)
  have each: "fst e \<in> set (map fst (columns t)) \<and> index_ok t' (fst e) (snd e)"
    if e: "e \<in> set (indexes t')" for e
  proof -
    obtain c idx' where ce: "e = (c, idx')" by (cases e)
    have m: "map_of (indexes t') c = Some idx'" using e ce d by simp
    then obtain idx where idx: "map_of (indexes t) c = Some idx"
      using ixc [of c] by (auto split: option.splits)
    have "(c, idx) \<in> set (indexes t)" using idx by (rule map_of_SomeD)
    then have c: "c \<in> set (map fst (columns t))" and ok: "index_ok t c idx"
      using indexes_ok_entry [OF io] by blast+
    obtain ov where ov: "map_of old c = Some ov"
      using c ko map_of_keys [of c old] by auto
    show ?thesis
    proof (cases "map_of ups c")
      case None
      then have "idx' = idx" "map_of nr c = map_of old c"
        using m idx ixc [of c] nrc [of c] by auto
      then show ?thesis
        using index_ok_updated_same [OF ro i old lr ok _ s' d'] c ce by simp
    next
      case (Some nv)
      then have "idx' = HashIndex_insert (HashIndex_delete idx ov (VInt k)) nv (VInt k)"
        "map_of nr c = Some nv"
        using m idx ov ixc [of c] nrc [of c] by auto
      then show ?thesis
        using index_ok_updated_changed [OF ro i old lr ok ov _ s' d'] c ce by simp
    qed
  qed
  show ?thesis
    unfolding indexes_ok_def using d each by (auto simp: c')
qed

lemma constraints_ok_updated:
  assumes so: "schema_ok t" and ro: "rows_ok t" and io: "indexes_ok t" and co: "constraints_ok t"
    and i: "i < length (srows t)" and old: "srows t ! i = (VInt k, old)"
    and lr: "live_row t (VInt k) old"
    and v: "validate_updates t (VInt k) ups = None"
    and c': "columns t' = columns t" and p': "primary_key t' = primary_key t"
    and ixc: "\<And>c. map_of (indexes t') c =
            (case map_of (indexes t) c of
               None \<Rightarrow> None
             | Some idx \<Rightarrow>
                 (case map_of ups c of
                    None \<Rightarrow> Some idx
                  | Some nv \<Rightarrow>
                      Some (HashIndex_insert (HashIndex_delete idx (the (map_of old c)) (VInt k)) nv (VInt k))))"
  shows "constraints_ok t'"
proof -
  let ?rid = "VInt k"
  have ko: "map fst old = map fst (columns t)"
    using ro lr by (auto simp: rows_ok_def live_row_def)
  have uniq: "\<exists>idx'. map_of (indexes t') cn = Some idx' \<and> (\<forall>w. length (HashIndex_search idx' w) \<le> 1)"
    if e: "(cn, col) \<in> set (columns t)" and u: "is_unique col" for cn col
  proof -
    obtain idx where idx: "map_of (indexes t) cn = Some idx"
      and le: "\<And>w. length (HashIndex_search idx w) \<le> 1"
      using co e u by (fastforce simp: constraints_ok_def)
    have "(cn, idx) \<in> set (indexes t)" using idx by (rule map_of_SomeD)
    then have ok: "index_ok t cn idx" using indexes_ok_entry [OF io] by blast
    then have d: "dict_ok (hi_index idx)"
      and s: "\<And>w. distinct (HashIndex_search idx w) \<and> set (HashIndex_search idx w) = holders t cn w"
      by (auto simp: index_ok_def)
    note sdel = search_delete [OF d index_ids_ints [OF ro ok]]
    show ?thesis
    proof (cases "map_of ups cn")
      case None
      then show ?thesis using idx ixc [of cn] le by auto
    next
      case (Some nv)
      let ?ov = "the (map_of old cn)"
      let ?d = "HashIndex_delete idx ?ov ?rid"
      let ?i = "HashIndex_insert ?d nv ?rid"
      have m: "map_of (indexes t') cn = Some ?i" using Some idx ixc [of cn] by simp
      have mem: "(cn, nv) \<in> set ups" using Some by (rule map_of_SomeD)
      obtain col' where col': "map_of (columns t) cn = Some col'"
        and vu: "is_unique col' \<longrightarrow> nv \<noteq> VNull \<longrightarrow>
          (\<forall>idx. map_of (indexes t) cn = Some idx \<longrightarrow>
             HashIndex_search idx nv = [] \<or> py_eq (hd (HashIndex_search idx nv)) ?rid)"
        using validate_updates_None [OF v mem] by blast
      have "(cn, col') \<in> set (columns t)" using col' by (rule map_of_SomeD)
      moreover have "distinct (map fst (columns t))"
        using so by (simp add: schema_ok_def)
      ultimately have "col' = col" using e eq_key_imp_eq_value by metis
      then have nvs: "nv \<noteq> VNull \<Longrightarrow>
          HashIndex_search idx nv = [] \<or> py_eq (hd (HashIndex_search idx nv)) ?rid"
        using vu u idx by simp
      have ld: "length (HashIndex_search ?d w) \<le> 1" for w
        using le [of w] length_search_delete [OF d, of ?ov ?rid w] by linarith
      have "length (HashIndex_search ?i w) \<le> 1" for w
      proof (cases "nv \<noteq> VNull \<and> py_eq nv w")
        case False
        then show ?thesis using ld [of w] by (auto simp: search_insert)
      next
        case True
        then have eq: "HashIndex_search idx w = HashIndex_search idx nv"
          using search_cong [of nv w idx] by simp
        have sub1: "set (HashIndex_search idx w) \<subseteq> {?rid}"
        proof (cases "HashIndex_search idx nv")
          case Nil
          then show ?thesis using eq by simp
        next
          case (Cons x xs)
          then have "py_eq x ?rid" using nvs True by auto
          moreover obtain j where "x = VInt j"
            using index_ids_ints [OF ro ok, of nv] Cons by auto
          ultimately have "x = ?rid" by simp
          moreover have "xs = []" using le [of nv] Cons by simp
          ultimately show ?thesis using eq Cons by simp
        qed
        have "cn \<in> set (map fst old)" using e ko by force
        then obtain ov where ov: "map_of old cn = Some ov"
          using map_of_keys [of cn old] by blast
        have notin: "?rid \<notin> holders t cn w" if "\<not> (ov \<noteq> VNull \<and> py_eq ov w)"
          using that holders_live_iff [OF ro lr, of cn w] ov by auto
        have "HashIndex_search ?d w = []"
        proof (cases "HashIndex_search idx w")
          case Nil
          then show ?thesis using ov by (simp add: sdel)
        next
          case (Cons y ys)
          then have y: "y = ?rid" and ys: "ys = []" using sub1 le [of w] by auto
          then have "?rid \<in> holders t cn w" using s [of w] Cons by auto
          then have "ov \<noteq> VNull \<and> py_eq ov w" using notin by blast
          then show ?thesis using ov Cons y ys by (simp add: sdel)
        qed
        then show ?thesis using True by (simp add: search_insert)
      qed
      then show ?thesis using m by blast
    qed
  qed
  show ?thesis
    unfolding constraints_ok_def
  proof (intro conjI ballI allI impI)
    fix entry assume "entry \<in> set (columns t')" "is_unique (snd entry)"
    then show "\<exists>idx. map_of (indexes t') (fst entry) = Some idx
                 \<and> (\<forall>v. length (HashIndex_search idx v) \<le> 1)"
      using uniq [of "fst entry" "snd entry"] by (simp add: c')
  next
    fix entry assume "entry \<in> set (columns t')"
    then show "is_primary_key (snd entry) = (primary_key t' = Some (fst entry))"
      using co by (simp add: constraints_ok_def c' p')
  next
    fix pk assume "primary_key t' = Some pk"
    then show "pk \<in> set (map fst (columns t'))"
      using co by (simp add: constraints_ok_def c' p')
  qed
qed


lemma map_fst_strip:
  "map fst (strip_internal_id r) = filter (\<lambda>k. k \<noteq> ''_row_id'') (map fst r)"
  by (induction r) (auto simp: strip_internal_id_def)

lemma map_of_strip_id: "map_of (strip_internal_id r) ''_row_id'' = None"
  by (auto simp: map_of_eq_None_iff strip_internal_id_def)

text \<open>What a call of \<open>update_row\<close> does to a table that satisfies the invariants.\<close>

lemma update_row_shape:
  assumes inv: "table_inv t" and dist: "distinct (map fst ups)"
    and u: "update_row t (VInt k) ups = (t', res)"
  shows "(t' = t \<and> (res = Inr False \<or> (\<exists>e. res = Inl e))) \<or>
     (\<exists>i old nr. i < length (srows t) \<and> srows t ! i = (VInt k, old) \<and> live_row t (VInt k) old
        \<and> validate_updates t (VInt k) ups = None \<and> res = Inr True
        \<and> srows t' = (srows t)[i := (VInt k, nr)]
        \<and> deleted_row_ids t' = deleted_row_ids t \<and> columns t' = columns t
        \<and> primary_key t' = primary_key t \<and> next_row_id t' = next_row_id t
        \<and> (\<forall>c. map_of nr c = (case map_of ups c of Some nv \<Rightarrow> Some nv | None \<Rightarrow> map_of old c))
        \<and> map fst nr = map fst old
        \<and> map fst (indexes t') = map fst (indexes t)
        \<and> (\<forall>c. map_of (indexes t') c =
              (case map_of (indexes t) c of
                 None \<Rightarrow> None
               | Some idx \<Rightarrow>
                   (case map_of ups c of
                      None \<Rightarrow> Some idx
                    | Some nv \<Rightarrow>
                        Some (HashIndex_insert (HashIndex_delete idx (the (map_of old c)) (VInt k))
                                nv (VInt k))))))"
proof -
  have so: "schema_ok t" and ro: "rows_ok t" and io: "indexes_ok t"
    using inv by (auto simp: table_inv_def)
  have ko: "keys_ok t" using inv by (rule table_inv_keys_ok)
  from update_row_cases [OF ko u]
  consider "t' = t \<and> (res = Inr False \<or> (\<exists>e. res = Inl e))"
    | i nrf ixs where "i < length (rows t)" "is_live_row t (VInt k) (rows t ! i)"
        "validate_updates t (VInt k) ups = None"
        "apply_updates (rows t ! i) (VInt k) ups (rows t ! i) (indexes t) = ((nrf, ixs), None)"
        "res = Inr True" "t' = updated_state t i nrf ixs"
    by blast
  then show ?thesis
  proof cases
    case 1
    then show ?thesis by blast
  next
    case 2
    let ?oldf = "rows t ! i"
    let ?old = "strip_internal_id ?oldf"
    let ?nr = "strip_internal_id nrf"
    have mem: "?oldf \<in> set (rows t)" using 2(1) by simp
    have len: "i < length (srows t)" using 2(1) by (simp add: srows_def)
    have rid: "row_get ?oldf ''_row_id'' = VInt k"
      using is_live_row_iff [OF ro mem, of k] 2(2) by simp
    have nth: "srows t ! i = (VInt k, ?old)"
      using 2(1) rid by (simp add: srows_def)
    have lr: "live_row t (VInt k) ?old" using live_of_is_live [OF ro mem 2(2)] .
    have cols: "set (map fst ups) \<subseteq> set (map fst (columns t))"
      using validate_updates_keys [OF 2(3)] .
    have noid: "''_row_id'' \<notin> set (map fst (columns t))"
      using schema_no_id [OF so] by simp
    have upid: "map_of ups ''_row_id'' = None"
      using cols noid by (auto simp: map_of_eq_None_iff)
    have "set (map fst (columns t)) \<subseteq> set (map fst ?oldf)"
      using keys_okD(2) [OF ko mem] by simp
    then have sub: "set (map fst ups) \<subseteq> set (map fst ?oldf)" using cols by blast
    note res = apply_updates_result [OF dist sub 2(4)]
    have full: "map_of nrf c = (case map_of ups c of Some nv \<Rightarrow> Some nv | None \<Rightarrow> map_of ?oldf c)" for c
      using res by blast
    have fkeys: "map fst nrf = map fst ?oldf" using res sub by blast
    have ikeys: "map fst ixs = map fst (indexes t)" using res by blast
    have ixf: "map_of ixs c =
            (case map_of (indexes t) c of
               None \<Rightarrow> None
             | Some idx \<Rightarrow>
                 (case map_of ups c of
                    None \<Rightarrow> Some idx
                  | Some nv \<Rightarrow>
                      Some (HashIndex_insert (HashIndex_delete idx (the (map_of ?oldf c)) (VInt k)) nv (VInt k))))" for c
      using res by blast
    have nid: "row_get nrf ''_row_id'' = VInt k"
      using full [of "''_row_id''"] upid rid by (simp add: row_get_def)
    have s': "srows t' = (srows t)[i := (VInt k, ?nr)]"
      using 2(6) nid by (simp add: srows_def updated_state_def map_update)
    have nrc: "map_of ?nr c = (case map_of ups c of Some nv \<Rightarrow> Some nv | None \<Rightarrow> map_of ?old c)" for c
    proof (cases "c = ''_row_id''")
      case True
      then show ?thesis using upid by (simp add: map_of_strip_id)
    next
      case False
      then have "map_of ?nr c = map_of nrf c" "map_of ?old c = map_of ?oldf c"
        by (simp_all add: map_of_strip)
      then show ?thesis using full [of c] by (simp split: option.splits)
    qed
    have nkeys: "map fst ?nr = map fst ?old" using fkeys by (simp add: map_fst_strip)
    have ixc: "map_of ixs c =
            (case map_of (indexes t) c of
               None \<Rightarrow> None
             | Some idx \<Rightarrow>
                 (case map_of ups c of
                    None \<Rightarrow> Some idx
                  | Some nv \<Rightarrow>
                      Some (HashIndex_insert (HashIndex_delete idx (the (map_of ?old c)) (VInt k)) nv (VInt k))))" for c
    proof (cases "map_of (indexes t) c")
      case None
      then show ?thesis using ixf [of c] by simp
    next
      case (Some idx)
      then have "(c, idx) \<in> set (indexes t)" by (rule map_of_SomeD)
      then have "c \<in> fst ` set (indexes t)" by force
      then have "c \<noteq> ''_row_id''" using index_keys_no_id [OF so io] by metis
      then have "map_of ?old c = map_of ?oldf c" by (simp add: map_of_strip)
      then show ?thesis using ixf [of c] by (simp split: option.splits)
    qed
    have fields: "deleted_row_ids t' = deleted_row_ids t" "columns t' = columns t"
      "primary_key t' = primary_key t" "next_row_id t' = next_row_id t" "indexes t' = ixs"
      using 2(6) by (simp_all add: updated_state_def)
    show ?thesis
      using len nth lr 2(3,5) s' fields nrc nkeys ikeys ixc by blast
  qed
qed

lemma table_inv_update_row:
  assumes inv: "table_inv t" and dist: "distinct (map fst ups)"
    and u: "update_row t (VInt k) ups = (t', res)"
  shows "table_inv t'"
proof -
  have so: "schema_ok t" and ro: "rows_ok t" and io: "indexes_ok t" and co: "constraints_ok t"
    using inv by (auto simp: table_inv_def)
  from update_row_shape [OF inv dist u]
  consider "t' = t"
    | i old nr where "i < length (srows t)" "srows t ! i = (VInt k, old)" "live_row t (VInt k) old"
        "validate_updates t (VInt k) ups = None"
        "srows t' = (srows t)[i := (VInt k, nr)]"
        "deleted_row_ids t' = deleted_row_ids t" "columns t' = columns t"
        "primary_key t' = primary_key t" "next_row_id t' = next_row_id t"
        "\<And>c. map_of nr c = (case map_of ups c of Some nv \<Rightarrow> Some nv | None \<Rightarrow> map_of old c)"
        "map fst nr = map fst old"
        "map fst (indexes t') = map fst (indexes t)"
        "\<And>c. map_of (indexes t') c =
              (case map_of (indexes t) c of
                 None \<Rightarrow> None
               | Some idx \<Rightarrow>
                   (case map_of ups c of
                      None \<Rightarrow> Some idx
                    | Some nv \<Rightarrow>
                        Some (HashIndex_insert (HashIndex_delete idx (the (map_of old c)) (VInt k))
                                nv (VInt k))))"
    by blast
  then show ?thesis
  proof cases
    case 1
    then show ?thesis using inv by simp
  next
    case 2
    have "schema_ok t'" using so 2(7) by (simp add: schema_ok_def)
    then show ?thesis
      unfolding table_inv_def
      using rows_ok_updated [OF ro 2(1,2,11,5,6,9,7)]
        indexes_ok_updated [OF ro io 2(1,2,3,5,6,7,10,12,13)]
        constraints_ok_updated [OF so ro io co 2(1,2,3,4,7,8,13)]
      by simp
  qed
qed


subsection \<open>Creating and dropping an index\<close>

lemma populate_index_ok:
  assumes "\<forall>r \<in> set rs. cn \<in> fst ` set r \<and> (\<exists>k. map_of r ''_row_id'' = Some (VInt k))"
    and "\<forall>d \<in> del. \<exists>k. d = VInt k" and "cn \<noteq> ''_row_id''"
  shows "\<exists>idx'. populate_index idx rs del cn = Inr idx'
           \<and> (dict_ok (hi_index idx) \<longrightarrow> dict_ok (hi_index idx'))
           \<and> (VNull \<notin> fst ` set (hi_index idx) \<longrightarrow> VNull \<notin> fst ` set (hi_index idx'))
           \<and> (\<forall>v. HashIndex_search idx' v =
                  HashIndex_search idx v
                    @ matching_ids (map (\<lambda>r. (row_get r ''_row_id'', strip_internal_id r)) rs) del cn v)"
  using assms(1)
proof (induction rs arbitrary: idx)
  case Nil
  then show ?case by (simp add: matching_ids_def)
next
  case (Cons r rs)
  let ?view = "\<lambda>r. (row_get r ''_row_id'', strip_internal_id r)"
  obtain x where x: "map_of r cn = Some x"
    using Cons.prems map_of_keys [of cn r] by auto
  obtain k where k: "map_of r ''_row_id'' = Some (VInt k)" using Cons.prems by auto
  have g: "row_get r ''_row_id'' = VInt k" using k by (simp add: row_get_def)
  have sx: "map_of (strip_internal_id r) cn = Some x" using x assms(3) by (simp add: map_of_strip)
  have pin: "py_in (VInt k) del \<longleftrightarrow> VInt k \<in> del" using assms(2) by (rule py_in_ints)
  have rest: "\<forall>r \<in> set rs. cn \<in> fst ` set r \<and> (\<exists>k. map_of r ''_row_id'' = Some (VInt k))"
    using Cons.prems by simp
  show ?case
  proof (cases "VInt k \<in> del")
    case True
    then show ?thesis using Cons.IH [OF rest, of idx] k g pin by (simp add: matching_ids_def)
  next
    case False
    from Cons.IH [OF rest, of "HashIndex_insert idx x (VInt k)"]
    obtain idx' where p: "populate_index (HashIndex_insert idx x (VInt k)) rs del cn = Inr idx'"
      and d: "dict_ok (hi_index (HashIndex_insert idx x (VInt k))) \<longrightarrow> dict_ok (hi_index idx')"
      and n: "VNull \<notin> fst ` set (hi_index (HashIndex_insert idx x (VInt k)))
                \<longrightarrow> VNull \<notin> fst ` set (hi_index idx')"
      and s: "\<forall>v. HashIndex_search idx' v =
                  HashIndex_search (HashIndex_insert idx x (VInt k)) v
                    @ matching_ids (map ?view rs) del cn v"
      by blast
    have "populate_index idx (r # rs) del cn = Inr idx'" using p k x False pin by simp
    moreover have "\<forall>v. HashIndex_search idx' v =
                     HashIndex_search idx v @ matching_ids (map ?view (r # rs)) del cn v"
      using s g sx False by (auto simp: search_insert matching_ids_def)
    ultimately show ?thesis using d n dict_ok_insert null_free_insert by blast
  qed
qed

lemma in_map_fst_filter:
  "i \<in> set (map fst (filter P rs)) \<longleftrightarrow> (\<exists>r. (i, r) \<in> set rs \<and> P (i, r))"
  by (induction rs) auto

lemma matching_ids_holders:
  "rows_ok t \<Longrightarrow>
   distinct (matching_ids (srows t) (deleted_row_ids t) cn v)
   \<and> set (matching_ids (srows t) (deleted_row_ids t) cn v) = holders t cn v"
proof -
  assume ro: "rows_ok t"
  have "distinct (map fst (srows t))" using ro by (rule distinct_row_ids)
  then have "distinct (matching_ids (srows t) (deleted_row_ids t) cn v)"
    unfolding matching_ids_def by (rule distinct_map_filter)
  moreover have "i \<in> set (matching_ids (srows t) (deleted_row_ids t) cn v) \<longleftrightarrow> i \<in> holders t cn v" for i
    unfolding matching_ids_def in_map_fst_filter holders_def live_row_def by simp
  ultimately show ?thesis by blast
qed

lemma holders_cong:
  "rows t' = rows t \<Longrightarrow> deleted_row_ids t' = deleted_row_ids t \<Longrightarrow> holders t' = holders t"
  by (intro ext) (simp add: holders_def live_row_def srows_def)

lemma index_ok_cong:
  assumes "rows t' = rows t" and "deleted_row_ids t' = deleted_row_ids t"
  shows "index_ok t' = index_ok t"
proof -
  have h: "holders t' = holders t" using assms by (rule holders_cong)
  show ?thesis by (intro ext) (simp add: index_ok_def h)
qed

text \<open>What \<open>create_index\<close> does to a table.\<close>

lemma create_index_unknown:
  "map_of (columns t) cn = None \<Longrightarrow>
   create_index t cn = (t, Some (ColumnNotFoundError cn (Some (table_name t))))"
  by (simp add: create_index_def)

lemma create_index_exists:
  "map_of (columns t) cn = Some col \<Longrightarrow> map_of (indexes t) cn = Some idx \<Longrightarrow>
   create_index t cn = (t, None)"
  by (simp add: create_index_def)

lemma create_index_new:
  "map_of (columns t) cn = Some col \<Longrightarrow> map_of (indexes t) cn = None \<Longrightarrow>
   create_index t cn =
     (case populate_index (HashIndex cn) (rows t) (deleted_row_ids t) cn of
        Inl e \<Rightarrow> (t, Some e)
      | Inr idx \<Rightarrow> (t\<lparr>indexes := AList.update cn idx (indexes t)\<rparr>, None))"
  by (simp add: create_index_def)

lemma stored_id_key:
  assumes ro: "rows_ok t" and r: "r \<in> set (rows t)"
  shows "\<exists>k. map_of r ''_row_id'' = Some (VInt k)"
proof -
  obtain k where "row_get r ''_row_id'' = VInt (int k)"
    using srow_id [OF ro in_srows [OF r]] by blast
  then show ?thesis by (auto simp: row_get_def split: option.splits)
qed

lemma create_index_cases:
  assumes so: "schema_ok t" and ro: "rows_ok t" and c: "create_index t cn = (t', res)"
  shows "(t' = t \<and> (res = None \<longrightarrow> map_of (indexes t) cn \<noteq> None)) \<or>
         (\<exists>idx'. res = None \<and> cn \<in> set (map fst (columns t)) \<and> map_of (indexes t) cn = None
            \<and> t' = t\<lparr>indexes := indexes t @ [(cn, idx')]\<rparr>
            \<and> dict_ok (hi_index idx') \<and> VNull \<notin> fst ` set (hi_index idx')
            \<and> (\<forall>v. HashIndex_search idx' v = matching_ids (srows t) (deleted_row_ids t) cn v))"
proof (cases "map_of (columns t) cn")
  case None
  then show ?thesis using c create_index_unknown [OF None] by auto
next
  case (Some col)
  show ?thesis
  proof (cases "map_of (indexes t) cn")
    case (Some idx)
    then show ?thesis using c create_index_exists [OF \<open>map_of (columns t) cn = Some col\<close> Some] by auto
  next
    case None
    have "(cn, col) \<in> set (columns t)" using Some by (rule map_of_SomeD)
    then have ci: "cn \<in> set (map fst (columns t))" by force
    then have nid: "cn \<noteq> ''_row_id''" using so by (auto simp: schema_ok_def)
    have "cn \<in> fst ` set r" if "r \<in> set (rows t)" for r
    proof -
      have "map fst (strip_internal_id r) = map fst (columns t)"
        using ro in_srows [OF that] by (fastforce simp: rows_ok_def)
      then have "cn \<in> set (map fst (strip_internal_id r))" using ci by simp
      then show ?thesis using keys_strip [of r] by auto
    qed
    then have all: "\<forall>r \<in> set (rows t). cn \<in> fst ` set r \<and> (\<exists>k. map_of r ''_row_id'' = Some (VInt k))"
      using stored_id_key [OF ro] by blast
    from populate_index_ok [OF all deleted_ints [OF ro] nid, of "HashIndex cn"]
    obtain idx' where p: "populate_index (HashIndex cn) (rows t) (deleted_row_ids t) cn = Inr idx'"
      and d: "dict_ok (hi_index idx')" and n: "VNull \<notin> fst ` set (hi_index idx')"
      and s: "\<forall>v. HashIndex_search idx' v = matching_ids (srows t) (deleted_row_ids t) cn v"
      by (auto simp: HashIndex_def HashIndex_search_def srows_def)
    have "cn \<notin> fst ` set (indexes t)" using None by (simp add: map_of_eq_None_iff)
    then have "AList.update cn idx' (indexes t) = indexes t @ [(cn, idx')]"
      by (rule update_new_key)
    moreover have "t' = t\<lparr>indexes := AList.update cn idx' (indexes t)\<rparr> \<and> res = None"
      using c create_index_new [OF Some None] p by simp
    ultimately show ?thesis using d n s ci None by auto
  qed
qed

lemma indexes_ok_create_index:
  assumes so: "schema_ok t" and ro: "rows_ok t" and io: "indexes_ok t"
    and c: "create_index t cn = (t', res)"
  shows "indexes_ok t'"
proof -
  from create_index_cases [OF so ro c]
  consider "t' = t"
    | idx' where "cn \<in> set (map fst (columns t))" "map_of (indexes t) cn = None"
        "t' = t\<lparr>indexes := indexes t @ [(cn, idx')]\<rparr>"
        "dict_ok (hi_index idx')" "VNull \<notin> fst ` set (hi_index idx')"
        "\<forall>v. HashIndex_search idx' v = matching_ids (srows t) (deleted_row_ids t) cn v"
    by blast
  then show ?thesis
  proof cases
    case 1
    then show ?thesis using io by simp
  next
    case 2
    have eq: "index_ok t' = index_ok t" using 2(3) by (intro index_ok_cong) simp_all
    have new: "index_ok t cn idx'"
      using 2(4,5,6) matching_ids_holders [OF ro] by (simp add: index_ok_def)
    have "cn \<notin> set (map fst (indexes t))" using 2(2) by (simp add: map_of_eq_None_iff)
    then show ?thesis
      using io new 2(1) unfolding indexes_ok_def eq by (auto simp: 2(3))
  qed
qed

lemma frame_create_index:
  assumes c: "create_index t cn = (t', res)"
  shows "columns t' = columns t \<and> rows t' = rows t \<and> next_row_id t' = next_row_id t
       \<and> deleted_row_ids t' = deleted_row_ids t \<and> primary_key t' = primary_key t
       \<and> table_name t' = table_name t \<and> column_order t' = column_order t"
  using c by (auto simp: create_index_def split: if_splits sum.splits)

lemma map_of_create_index:
  assumes so: "schema_ok t" and ro: "rows_ok t" and c: "create_index t cn = (t', res)"
    and m: "map_of (indexes t) k = Some idx"
  shows "map_of (indexes t') k = Some idx"
  using create_index_cases [OF so ro c] m by auto

lemma constraints_ok_create_index:
  assumes so: "schema_ok t" and ro: "rows_ok t" and co: "constraints_ok t"
    and c: "create_index t cn = (t', res)"
  shows "constraints_ok t'"
proof -
  note f = frame_create_index [OF c]
  show ?thesis
    unfolding constraints_ok_def
  proof (intro conjI ballI allI impI)
    fix entry assume e: "entry \<in> set (columns t')" and u: "is_unique (snd entry)"
    then obtain idx where idx: "map_of (indexes t) (fst entry) = Some idx"
      and le: "\<forall>v. length (HashIndex_search idx v) \<le> 1"
      using co f by (fastforce simp: constraints_ok_def)
    show "\<exists>idx. map_of (indexes t') (fst entry) = Some idx
            \<and> (\<forall>v. length (HashIndex_search idx v) \<le> 1)"
      using map_of_create_index [OF so ro c idx] le by blast
  next
    fix entry assume "entry \<in> set (columns t')"
    then show "is_primary_key (snd entry) = (primary_key t' = Some (fst entry))"
      using co f by (simp add: constraints_ok_def)
  next
    fix pk assume "primary_key t' = Some pk"
    then show "pk \<in> set (map fst (columns t'))"
      using co f by (simp add: constraints_ok_def)
  qed
qed

lemma rows_ok_frame:
  "rows_ok t \<Longrightarrow> columns t' = columns t \<Longrightarrow> rows t' = rows t \<Longrightarrow>
   next_row_id t' = next_row_id t \<Longrightarrow> deleted_row_ids t' = deleted_row_ids t \<Longrightarrow> rows_ok t'"
  by (simp add: rows_ok_def srows_def)

lemma table_inv_create_index:
  assumes inv: "table_inv t" and c: "create_index t cn = (t', res)"
  shows "table_inv t'"
proof -
  have so: "schema_ok t" and ro: "rows_ok t" and io: "indexes_ok t" and co: "constraints_ok t"
    using inv by (auto simp: table_inv_def)
  note f = frame_create_index [OF c]
  have "schema_ok t'" using so f by (simp add: schema_ok_def)
  moreover have "rows_ok t'" using rows_ok_frame [OF ro] f by simp
  ultimately show ?thesis
    unfolding table_inv_def
    using indexes_ok_create_index [OF so ro io c] constraints_ok_create_index [OF so ro co c] by simp
qed

lemma table_inv_drop_index:
  assumes inv: "table_inv t" and c: "drop_index t cn = (t', res)"
  shows "table_inv t'"
proof -
  have so: "schema_ok t" and ro: "rows_ok t" and io: "indexes_ok t" and co: "constraints_ok t"
    using inv by (auto simp: table_inv_def)
  show ?thesis
  proof (cases "t' = t")
    case True
    then show ?thesis using inv by simp
  next
    case False
    then have t': "t' = t\<lparr>indexes := AList.delete cn (indexes t)\<rparr>"
      and nu: "\<And>col. map_of (columns t) cn = Some col \<Longrightarrow> \<not> is_unique col"
      using c by (auto simp: drop_index_def split: option.splits if_splits)
    have eq: "index_ok t' = index_ok t" using t' by (intro index_ok_cong) simp_all
    have s1: "schema_ok t'" using so t' by (simp add: schema_ok_def)
    have s2: "rows_ok t'" using ro t' by (simp add: rows_ok_def srows_def)
    have sub: "set (AList.delete cn (indexes t)) \<subseteq> set (indexes t)"
      by (auto simp: AList.delete_eq)
    have "distinct (map fst (AList.delete cn (indexes t)))"
      using io by (simp add: indexes_ok_def distinct_delete)
    then have s3: "indexes_ok t'"
      using io sub unfolding indexes_ok_def eq by (auto simp: t')
    have dc: "distinct (map fst (columns t))" using so by (simp add: schema_ok_def)
    have s4: "constraints_ok t'"
      unfolding constraints_ok_def
    proof (intro conjI ballI allI impI)
      fix entry assume e: "entry \<in> set (columns t')" and u: "is_unique (snd entry)"
      then obtain idx where idx: "map_of (indexes t) (fst entry) = Some idx"
        and le: "\<forall>v. length (HashIndex_search idx v) \<le> 1"
        using co t' by (fastforce simp: constraints_ok_def)
      have "map_of (columns t) (fst entry) = Some (snd entry)"
        using e t' dc by (simp add: map_of_eq_Some_iff [OF dc])
      then have "fst entry \<noteq> cn" using nu u by auto
      then have "map_of (indexes t') (fst entry) = Some idx"
        using idx t' by (simp add: delete_conv')
      then show "\<exists>idx. map_of (indexes t') (fst entry) = Some idx
              \<and> (\<forall>v. length (HashIndex_search idx v) \<le> 1)"
        using le by blast
    next
      fix entry assume "entry \<in> set (columns t')"
      then show "is_primary_key (snd entry) = (primary_key t' = Some (fst entry))"
        using co t' by (simp add: constraints_ok_def)
    next
      fix pk assume "primary_key t' = Some pk"
      then show "pk \<in> set (map fst (columns t'))"
        using co t' by (simp add: constraints_ok_def)
    qed
    show ?thesis unfolding table_inv_def using s1 s2 s3 s4 by simp
  qed
qed

lemma table_inv_step:
  assumes "table_inv t" and "step t t'"
  shows "table_inv t'"
  using assms(2)
proof cases
  case (step_insert row_data res)
  then show ?thesis using table_inv_insert_row [OF assms(1)] by blast
next
  case (step_update updates i res')
  then show ?thesis using table_inv_update_row [OF assms(1)] by blast
next
  case (step_delete i res')
  then show ?thesis using table_inv_delete_row [OF assms(1)] by blast
next
  case (step_create_index column_name res'')
  then show ?thesis using table_inv_create_index [OF assms(1)] by blast
next
  case (step_drop_index column_name res'')
  then show ?thesis using table_inv_drop_index [OF assms(1)] by blast
qed


subsection \<open>The table that \<open>Table\<close> builds\<close>

lemma valid_identifier_nonempty: "validate_identifier n = Inr True \<Longrightarrow> n \<noteq> []"
  by (auto simp: validate_identifier_def split: if_splits)

lemma fold_update_columns:
  "distinct (map name cols) \<Longrightarrow> set (map name cols) \<inter> set (map fst d0) = {} \<Longrightarrow>
   fold (\<lambda>col d. AList.update (name col) col d) cols d0 = d0 @ map (\<lambda>c. (name c, c)) cols"
proof (induction cols arbitrary: d0)
  case Nil
  then show ?case by simp
next
  case (Cons c cols)
  have n: "name c \<notin> fst ` set d0" using Cons.prems(2) by auto
  have u: "AList.update (name c) c d0 = d0 @ [(name c, c)]" using n by (rule update_new_key)
  have "set (map name cols) \<inter> set (map fst (d0 @ [(name c, c)])) = {}"
    using Cons.prems by auto
  then show ?case using Cons.IH [of "d0 @ [(name c, c)]"] Cons.prems(1) u by simp
qed

lemma empty_ok_create_index:
  assumes e: "empty_ok t" and c: "create_index t cn = (t', res)"
  shows "empty_ok t'"
proof -
  have so: "schema_ok t" and ro: "rows_ok t" and io: "indexes_ok t" and r: "rows t = []"
    using e by (auto simp: empty_ok_def)
  note f = frame_create_index [OF c]
  have "schema_ok t'" using so f by (simp add: schema_ok_def)
  moreover have "rows_ok t'" using rows_ok_frame [OF ro] f by simp
  ultimately show ?thesis
    using indexes_ok_create_index [OF so ro io c] r f by (simp add: empty_ok_def)
qed

lemma init_indexes_ok:
  assumes "empty_ok t" and "init_indexes cs t = Inr t'"
  shows "empty_ok t' \<and> columns t' = columns t \<and> primary_key t' = primary_key t
       \<and> column_order t' = column_order t
       \<and> (\<forall>k idx. map_of (indexes t) k = Some idx \<longrightarrow> map_of (indexes t') k = Some idx)
       \<and> (\<forall>c \<in> set cs. is_unique c \<longrightarrow> map_of (indexes t') (name c) \<noteq> None)"
  using assms
proof (induction cs arbitrary: t)
  case Nil
  then show ?case by simp
next
  case (Cons col cs)
  show ?case
  proof (cases "is_unique col")
    case False
    then have np: "\<not> is_primary_key col" by (simp add: is_unique_def)
    then have "init_indexes cs t = Inr t'" using Cons.prems(2) False by simp
    from Cons.IH [OF Cons.prems(1) this] show ?thesis using False by simp
  next
    case True
    obtain t1 res where c: "create_index t (name col) = (t1, res)"
      by (cases "create_index t (name col)")
    have res: "res = None" and rest: "init_indexes cs t1 = Inr t'"
      using Cons.prems(2) True c by (cases res; simp)+
    have so: "schema_ok t" and ro: "rows_ok t" using Cons.prems(1) by (simp_all add: empty_ok_def)
    have e1: "empty_ok t1" using empty_ok_create_index [OF Cons.prems(1) c] .
    note f = frame_create_index [OF c]
    have keep: "\<And>k idx. map_of (indexes t) k = Some idx \<Longrightarrow> map_of (indexes t1) k = Some idx"
      using map_of_create_index [OF so ro c] .
    have new: "map_of (indexes t1) (name col) \<noteq> None"
      using create_index_cases [OF so ro c] res by auto
    note IH = Cons.IH [OF e1 rest]
    have "map_of (indexes t') (name col) \<noteq> None" using IH new by auto
    then show ?thesis using IH f keep by auto
  qed
qed

lemma column_order_init_indexes:
  "init_indexes cs t = Inr t' \<Longrightarrow> column_order t' = column_order t"
proof (induction cs arbitrary: t)
  case Nil
  then show ?case by simp
next
  case (Cons col cs)
  show ?case
  proof (cases "is_primary_key col \<or> is_unique col")
    case False
    then show ?thesis using Cons by simp
  next
    case True
    obtain t1 res where c: "create_index t (name col) = (t1, res)"
      by (cases "create_index t (name col)")
    have "res = None \<and> init_indexes cs t1 = Inr t'"
      using Cons.prems True c by (cases res) auto
    then show ?thesis using Cons.IH [of t1] frame_create_index [OF c] by simp
  qed
qed

lemma table_inv_Table:
  assumes t: "Table nm cols = Inr t" and vs: "valid_schema t"
  shows "table_inv t"
proof -
  let ?pk = "filter is_primary_key cols"
  let ?t0 = "\<lparr>table_name = nm,
              columns = fold (\<lambda>col d. AList.update (name col) col d) cols [],
              column_order = map name cols,
              primary_key = (case ?pk of [] \<Rightarrow> None | col # rest \<Rightarrow> Some (name col)),
              rows = [],
              next_row_id = 0,
              deleted_row_ids = {},
              indexes = []\<rparr>"
  have ne: "cols \<noteq> []" and pk1: "length ?pk \<le> 1" and init: "init_indexes cols ?t0 = Inr t"
    using t by (auto simp: Table_def Let_def split: if_splits)
  have co: "column_order t = map name cols"
    using column_order_init_indexes [OF init] by simp
  have d: "distinct (map name cols)" using vs co by (simp add: valid_schema_def)
  have cols0: "columns ?t0 = map (\<lambda>c. (name c, c)) cols"
    using fold_update_columns [OF d, of "[]"] by simp
  have names: "map fst (columns ?t0) = map name cols"
    unfolding cols0 by (simp add: comp_def)
  have ids0: "\<forall>c \<in> set (map name cols). c \<noteq> [] \<and> c \<noteq> ''_row_id''"
    using vs co valid_identifier_nonempty
    by (auto simp: valid_schema_def list_all_iff)
  have ids: "\<forall>c \<in> set (map fst (columns ?t0)). c \<noteq> [] \<and> c \<noteq> ''_row_id''"
    unfolding names using ids0 .
  have d0: "distinct (map fst (columns ?t0))" unfolding names using d .
  have "schema_ok ?t0" unfolding schema_ok_def using d0 ids by blast
  moreover have "rows_ok ?t0" by (simp add: rows_ok_def srows_def)
  moreover have "indexes_ok ?t0" by (simp add: indexes_ok_def)
  ultimately have e0: "empty_ok ?t0"
    unfolding empty_ok_def by simp
  note r = init_indexes_ok [OF e0 init]
  have e: "empty_ok t" and c: "columns t = map (\<lambda>c. (name c, c)) cols"
    and pk: "primary_key t = (case ?pk of [] \<Rightarrow> None | col # rest \<Rightarrow> Some (name col))"
    and ix: "\<forall>c \<in> set cols. is_unique c \<longrightarrow> map_of (indexes t) (name c) \<noteq> None"
    using r cols0 by auto
  have so: "schema_ok t" and ro: "rows_ok t" and io: "indexes_ok t" and rows: "rows t = []"
    using e by (auto simp: empty_ok_def)
  have pkiff: "is_primary_key col \<longleftrightarrow> primary_key t = Some (name col)" if m: "col \<in> set cols" for col
  proof
    assume "is_primary_key col"
    then have "col \<in> set ?pk" using m by simp
    then have "?pk = [col]" using pk1 by (cases ?pk) auto
    then show "primary_key t = Some (name col)" using pk by simp
  next
    assume a: "primary_key t = Some (name col)"
    then obtain c0 rest where p: "?pk = c0 # rest" and n: "name c0 = name col"
      using pk by (cases ?pk) auto
    have "c0 \<in> set ?pk" using p by simp
    then have c0: "c0 \<in> set cols" "is_primary_key c0" by auto
    have "inj_on name (set cols)" using d by (simp add: distinct_map)
    then have "c0 = col" using c0(1) m n by (auto dest: inj_onD)
    then show "is_primary_key col" using c0(2) by simp
  qed
  have cok: "constraints_ok t"
    unfolding constraints_ok_def
  proof (intro conjI ballI allI impI)
    fix entry assume en: "entry \<in> set (columns t)" and u: "is_unique (snd entry)"
    then have m: "snd entry \<in> set cols" and f: "fst entry = name (snd entry)"
      using c by auto
    then obtain idx where idx: "map_of (indexes t) (fst entry) = Some idx"
      using ix u by auto
    have "(fst entry, idx) \<in> set (indexes t)" using idx by (rule map_of_SomeD)
    then have "index_ok t (fst entry) idx" using indexes_ok_entry [OF io] by blast
    moreover have "holders t (fst entry) v = {}" for v
      using rows by (simp add: holders_def live_row_def srows_def)
    ultimately have "\<forall>v. length (HashIndex_search idx v) \<le> 1"
      by (simp add: index_ok_def)
    then show "\<exists>idx. map_of (indexes t) (fst entry) = Some idx
        \<and> (\<forall>v. length (HashIndex_search idx v) \<le> 1)"
      using idx by blast
  next
    fix entry assume en: "entry \<in> set (columns t)"
    then have m: "snd entry \<in> set cols" and f: "fst entry = name (snd entry)"
      using c by auto
    show "is_primary_key (snd entry) = (primary_key t = Some (fst entry))"
      using pkiff [OF m] f by simp
  next
    fix k assume a: "primary_key t = Some k"
    then obtain c0 rest where p: "?pk = c0 # rest" and n: "k = name c0"
      using pk by (cases ?pk) auto
    have "c0 \<in> set ?pk" using p by simp
    then have "c0 \<in> set cols" by simp
    then show "k \<in> set (map fst (columns t))" using c n by (simp add: comp_def)
  qed
  show ?thesis unfolding table_inv_def using so ro io cok by simp
qed

lemma column_order_step: "step t t' \<Longrightarrow> column_order t' = column_order t"
proof (induction rule: step.induct)
  case (step_insert t row_data t' res)
  then show ?case
    by (auto simp: insert_row_def Let_def split: option.splits sum.splits prod.splits)
next
  case (step_update updates t i t' res')
  then show ?case
    by (auto simp: update_row_def Let_def split: option.splits sum.splits prod.splits)
next
  case (step_delete t i t' res')
  then show ?case
    by (auto simp: delete_row_def Let_def split: option.splits sum.splits prod.splits)
next
  case (step_create_index t column_name t' res'')
  then show ?case using frame_create_index by blast
next
  case (step_drop_index t column_name t' res'')
  then show ?case
    by (auto simp: drop_index_def split: option.splits if_splits)
qed

lemma valid_schema_step: "step t t' \<Longrightarrow> valid_schema t' = valid_schema t"
  using column_order_step [of t t'] by (simp add: valid_schema_def)

lemma reachable_inv: "reachable t \<Longrightarrow> valid_schema t \<Longrightarrow> table_inv t"
proof (induction rule: reachable.induct)
  case (reachable_init nm cols t)
  then show ?case by (rule table_inv_Table)
next
  case (reachable_step t t')
  then show ?case using valid_schema_step table_inv_step by blast
qed


section \<open>Primary-key uniqueness\<close>

lemma scan_srows:
  assumes ro: "rows_ok t"
  shows "scan t = map snd (filter (\<lambda>s. fst s \<notin> deleted_row_ids t) (srows t))"
proof -
  have "py_in (row_get r ''_row_id'') (deleted_row_ids t)
          \<longleftrightarrow> row_get r ''_row_id'' \<in> deleted_row_ids t" if m: "r \<in> set (rows t)" for r
  proof -
    obtain k where "row_get r ''_row_id'' = VInt (int k)"
      using srow_id [OF ro in_srows [OF m]] by blast
    then show ?thesis using py_in_ints [OF deleted_ints [OF ro]] by simp
  qed
  then have "filter (\<lambda>r. \<not> py_in (row_get r ''_row_id'') (deleted_row_ids t)) (rows t)
           = filter (\<lambda>r. row_get r ''_row_id'' \<notin> deleted_row_ids t) (rows t)"
    by (intro filter_cong) auto
  then show ?thesis by (simp add: scan_def srows_def filter_map comp_def)
qed

lemma get_row_live:
  assumes ro: "rows_ok t"
  shows "get_row t (VInt i) = Some r \<longleftrightarrow> live_row t (VInt i) r"
proof
  assume "get_row t (VInt i) = Some r"
  then obtain s where f: "find (is_live_row t (VInt i)) (rows t) = Some s"
    and r: "r = strip_internal_id s"
    by (auto simp: get_row_def)
  have "is_live_row t (VInt i) s \<and> s \<in> set (rows t)" using f by (metis find_Some_iff nth_mem)
  then show "live_row t (VInt i) r" using live_of_is_live [OF ro] r by blast
next
  assume lr: "live_row t (VInt i) r"
  then obtain s where s: "s \<in> set (rows t)" "row_get s ''_row_id'' = VInt i"
    "strip_internal_id s = r"
    by (auto simp: live_row_def srows_def)
  have "is_live_row t (VInt i) s"
    using is_live_row_iff [OF ro s(1), of i] s(2) lr by (simp add: live_row_def)
  then have "find (is_live_row t (VInt i)) (rows t) \<noteq> None"
    using s(1) by (auto simp: find_None_iff)
  then obtain s' where f: "find (is_live_row t (VInt i)) (rows t) = Some s'" by blast
  have "is_live_row t (VInt i) s' \<and> s' \<in> set (rows t)" using f by (metis find_Some_iff nth_mem)
  then have "live_row t (VInt i) (strip_internal_id s')" using live_of_is_live [OF ro] by blast
  then have "strip_internal_id s' = r"
    using lr row_id_unique [OF ro] by (auto simp: live_row_def)
  then show "get_row t (VInt i) = Some r" using f by (simp add: get_row_def)
qed

lemma value_held_holders:
  assumes ro: "rows_ok t"
  shows "value_held t c v \<longleftrightarrow> holders t c v \<noteq> {}"
proof
  assume "value_held t c v"
  then obtain s x where s: "s \<in> set (srows t)" "fst s \<notin> deleted_row_ids t"
    and sx: "map_of (snd s) c = Some x" "x \<noteq> VNull" "py_eq x v"
    by (auto simp: value_held_def scan_srows [OF ro] list_ex_iff split: option.splits)
  have "live_row t (fst s) (snd s)" using s by (simp add: live_row_def)
  then have "fst s \<in> holders t c v" using sx unfolding holders_def by blast
  then show "holders t c v \<noteq> {}" by blast
next
  assume "holders t c v \<noteq> {}"
  then obtain i r x where "(i, r) \<in> set (srows t)" "i \<notin> deleted_row_ids t"
    "map_of r c = Some x" "x \<noteq> VNull" "py_eq x v"
    by (auto simp: holders_def live_row_def)
  then show "value_held t c v"
    by (force simp: value_held_def scan_srows [OF ro] list_ex_iff)
qed

lemma build_complete_row_ok:
  "list_all (\<lambda>entry. validate (snd entry) (row_get rd (fst entry)) (fst entry) = None) cols \<Longrightarrow>
   build_complete_row cols rd = Inr (map (\<lambda>entry. (fst entry, row_get rd (fst entry))) cols)"
  by (induction cols) (auto simp: Let_def)

lemma map_of_complete_row:
  "c \<in> set (map fst cols) \<Longrightarrow>
   map_of (map (\<lambda>entry. (fst entry, row_get rd (fst entry))) cols) c = Some (row_get rd c)"
  by (induction cols) auto

lemma insert_row_succeeds:
  assumes ko: "keys_ok t"
    and known: "list_all (\<lambda>k. map_of (columns t) k \<noteq> None) (map fst rd)"
    and b: "build_complete_row (columns t) rd = Inr cr"
    and pk: "check_primary_key t cr = None" and un: "check_unique t (columns t) cr = None"
  shows "insert_row t rd = (inserted t cr, Inr (next_row_id t))"
proof -
  obtain t' res where i: "insert_row t rd = (t', res)" by (cases "insert_row t rd")
  have f: "find (\<lambda>col_name. map_of (columns t) col_name = None) (map fst rd) = None"
    using known by (auto simp: find_None_iff list_all_iff)
  have "\<not> (t' = t \<and> (\<exists>e. res = Inl e))"
  proof
    assume a: "t' = t \<and> (\<exists>e. res = Inl e)"
    let ?sr = "AList.update ''_row_id'' (VInt (int (next_row_id t))) cr"
    obtain ixs e where ii: "insert_into_indexes (indexes t) ?sr (VInt (int (next_row_id t))) = (ixs, e)"
      by (cases "insert_into_indexes (indexes t) ?sr (VInt (int (next_row_id t)))")
    have "next_row_id t' = next_row_id t + 1"
      using i f b pk un ii by (cases e) (auto simp: insert_row_def Let_def)
    then show False using a by simp
  qed
  then show ?thesis using insert_row_cases [OF ko i] b i by auto
qed

lemma insert_row_duplicate_pk:
  assumes known: "list_all (\<lambda>k. map_of (columns t) k \<noteq> None) (map fst rd)"
    and b: "build_complete_row (columns t) rd = Inr cr"
    and pk: "check_primary_key t cr = Some e"
  shows "insert_row t rd = (t, Inl e)"
proof -
  have f: "find (\<lambda>col_name. map_of (columns t) col_name = None) (map fst rd) = None"
    using known by (auto simp: find_None_iff list_all_iff)
  show ?thesis using f b pk by (simp add: insert_row_def)
qed

lemma check_unique_free:
  assumes io: "indexes_ok t"
    and free: "\<forall>entry \<in> set cols. is_unique (snd entry) \<and> \<not> is_primary_key (snd entry)
                 \<longrightarrow> holders t (fst entry) (row_get rd (fst entry)) = {}"
    and vals: "\<forall>entry \<in> set cols. map_of cr (fst entry) = Some (row_get rd (fst entry))"
  shows "check_unique t cols cr = None"
  using free vals
proof (induction cols)
  case Nil
  then show ?case by simp
next
  case (Cons a cols)
  obtain cn col where a: "a = (cn, col)" by (cases a)
  have rest: "check_unique t cols cr = None" using Cons by simp
  have v: "map_of cr cn = Some (row_get rd cn)" using Cons.prems(2) a by simp
  show ?case
  proof (cases "is_unique col \<and> \<not> is_primary_key col \<and> row_get rd cn \<noteq> VNull")
    case False
    then show ?thesis using a v rest by auto
  next
    case True
    then have h: "holders t cn (row_get rd cn) = {}" using Cons.prems(1) a by simp
    have "find_by_index t cn (row_get rd cn) = None \<or> find_by_index t cn (row_get rd cn) = Some []"
    proof (cases "map_of (indexes t) cn")
      case None
      then show ?thesis by (simp add: find_by_index_def)
    next
      case (Some idx)
      then have "(cn, idx) \<in> set (indexes t)" by (rule map_of_SomeD)
      then have "index_ok t cn idx" using indexes_ok_entry [OF io] by blast
      then have "set (HashIndex_search idx (row_get rd cn)) = {}" using h by (simp add: index_ok_def)
      then show ?thesis using Some by (simp add: find_by_index_def)
    qed
    then show ?thesis using a v rest True by auto
  qed
qed

lemma example_empty_valid: "valid_schema example_empty"
  by code_simp

lemma example_two_valid: "valid_schema example_two"
  by code_simp

text \<open>
  C4 as stated fails, in four ways. On the constraint scenario's table, with
  \<open>(1, 'a')\<close> stored, inserting \<open>id = 1\<close> together with an integer for the VARCHAR
  column fails with a type-validation error, not a duplicate key; and after deleting
  \<open>(1, 'a')\<close> from the table that also holds \<open>(2, 'b')\<close>, inserting \<open>(1, 'b')\<close>
  does not succeed: it collides on the unique column. On the table with two columns
  named \<open>a\<close>, an update gives two live rows the key \<open>'x'\<close>, and after one of them is
  deleted an insert of \<open>'x'\<close> still fails with a duplicate key. On the table with a
  column named \<open>_row_id\<close>, an update of that column changes the identifier of the
  row, so that deleting the row leaves its key in the index, and an insert of the key
  still fails with a duplicate key.
\<close>

theorem duplicate_key_claim_fails:
  "(primary_key example_one = Some ''id''
    \<and> get_row example_one (VInt 0) = Some [(''id'', VInt 1), (''e'', VStr ''a'')]
    \<and> insert_row example_one [(''id'', VInt 1), (''e'', VInt 5)]
         = (example_one, Inl (TypeValidationError ''e'' ''VARCHAR'' (VInt 5))))
   \<and> (primary_key example_two = Some ''id''
    \<and> get_row example_two (VInt 0) = Some [(''id'', VInt 1), (''e'', VStr ''a'')]
    \<and> delete_row example_two (VInt 0) = (example_deleted, Inr True)
    \<and> insert_row example_deleted [(''id'', VInt 1), (''e'', VStr ''b'')]
         = (example_deleted, Inl (DuplicateKeyError ''e'' (VStr ''b''))))
   \<and> (Table ''z'' dup_columns = Inr (dup_table [] {} [])
    \<and> fst (insert_row (fst (insert_row (dup_table [] {} []) [(''a'', VStr ''x'')]))
           [(''a'', VStr ''y'')]) = dup_two
    \<and> update_row dup_two (VInt 1) [(''a'', VStr ''x'')] = (dup_same, Inr True)
    \<and> primary_key dup_same = Some ''a''
    \<and> get_row dup_same (VInt 0) = Some [(''a'', VStr ''x'')]
    \<and> delete_row dup_same (VInt 0) = (dup_deleted, Inr True)
    \<and> passes_validation dup_deleted [(''a'', VStr ''x'')]
    \<and> no_unique_collision dup_deleted [(''a'', VStr ''x'')]
    \<and> insert_row dup_deleted [(''a'', VStr ''x'')]
         = (dup_deleted, Inl (DuplicateKeyError ''a'' (VStr ''x''))))
   \<and> (Table ''w'' w_columns = Inr (w_table [] {} [])
    \<and> insert_row (w_table [] {} []) [(''id'', VInt 1), (''_row_id'', VInt 9)] = (w_one, Inr 0)
    \<and> update_row w_one (VInt 0) [(''_row_id'', VInt 7)] = (w_moved, Inr True)
    \<and> primary_key w_moved = Some ''id''
    \<and> get_row w_moved (VInt 7) = Some [(''id'', VInt 1)]
    \<and> delete_row w_moved (VInt 7) = (w_deleted, Inr True)
    \<and> passes_validation w_deleted [(''id'', VInt 1)]
    \<and> no_unique_collision w_deleted [(''id'', VInt 1)]
    \<and> insert_row w_deleted [(''id'', VInt 1)]
         = (w_deleted, Inl (DuplicateKeyError ''id'' (VInt 1))))"
proof -
  have a: "primary_key example_one = Some ''id''
    \<and> get_row example_one (VInt 0) = Some [(''id'', VInt 1), (''e'', VStr ''a'')]
    \<and> insert_row example_one [(''id'', VInt 1), (''e'', VInt 5)]
         = (example_one, Inl (TypeValidationError ''e'' ''VARCHAR'' (VInt 5)))"
  proof -
    have "primary_key example_one = Some ''id''" by code_simp
    moreover have "get_row example_one (VInt 0) = Some [(''id'', VInt 1), (''e'', VStr ''a'')]"
      by code_simp
    moreover have "insert_row example_one [(''id'', VInt 1), (''e'', VInt 5)]
         = (example_one, Inl (TypeValidationError ''e'' ''VARCHAR'' (VInt 5)))" by code_simp
    ultimately show ?thesis by simp
  qed
  have b: "primary_key example_two = Some ''id''
    \<and> get_row example_two (VInt 0) = Some [(''id'', VInt 1), (''e'', VStr ''a'')]
    \<and> delete_row example_two (VInt 0) = (example_deleted, Inr True)
    \<and> insert_row example_deleted [(''id'', VInt 1), (''e'', VStr ''b'')]
         = (example_deleted, Inl (DuplicateKeyError ''e'' (VStr ''b'')))"
  proof -
    have "primary_key example_two = Some ''id''" by code_simp
    moreover have "get_row example_two (VInt 0) = Some [(''id'', VInt 1), (''e'', VStr ''a'')]"
      by code_simp
    moreover have "insert_row example_deleted [(''id'', VInt 1), (''e'', VStr ''b'')]
         = (example_deleted, Inl (DuplicateKeyError ''e'' (VStr ''b'')))" by code_simp
    ultimately show ?thesis using example_delete by simp
  qed
  have c: "Table ''z'' dup_columns = Inr (dup_table [] {} [])
    \<and> fst (insert_row (fst (insert_row (dup_table [] {} []) [(''a'', VStr ''x'')]))
           [(''a'', VStr ''y'')]) = dup_two
    \<and> update_row dup_two (VInt 1) [(''a'', VStr ''x'')] = (dup_same, Inr True)
    \<and> primary_key dup_same = Some ''a''
    \<and> get_row dup_same (VInt 0) = Some [(''a'', VStr ''x'')]
    \<and> delete_row dup_same (VInt 0) = (dup_deleted, Inr True)
    \<and> passes_validation dup_deleted [(''a'', VStr ''x'')]
    \<and> no_unique_collision dup_deleted [(''a'', VStr ''x'')]
    \<and> insert_row dup_deleted [(''a'', VStr ''x'')]
         = (dup_deleted, Inl (DuplicateKeyError ''a'' (VStr ''x'')))"
  proof -
    have "Table ''z'' dup_columns = Inr (dup_table [] {} [])" by code_simp
    moreover have "fst (insert_row (fst (insert_row (dup_table [] {} []) [(''a'', VStr ''x'')]))
           [(''a'', VStr ''y'')]) = dup_two" by code_simp
    moreover have "update_row dup_two (VInt 1) [(''a'', VStr ''x'')] = (dup_same, Inr True)"
      by code_simp
    moreover have "primary_key dup_same = Some ''a''" by code_simp
    moreover have "get_row dup_same (VInt 0) = Some [(''a'', VStr ''x'')]" by code_simp
    moreover have "delete_row dup_same (VInt 0) = (dup_deleted, Inr True)" by code_simp
    moreover have "passes_validation dup_deleted [(''a'', VStr ''x'')]" by code_simp
    moreover have "no_unique_collision dup_deleted [(''a'', VStr ''x'')]" by code_simp
    moreover have "insert_row dup_deleted [(''a'', VStr ''x'')]
         = (dup_deleted, Inl (DuplicateKeyError ''a'' (VStr ''x'')))" by code_simp
    ultimately show ?thesis by simp
  qed
  have d: "Table ''w'' w_columns = Inr (w_table [] {} [])
    \<and> insert_row (w_table [] {} []) [(''id'', VInt 1), (''_row_id'', VInt 9)] = (w_one, Inr 0)
    \<and> update_row w_one (VInt 0) [(''_row_id'', VInt 7)] = (w_moved, Inr True)
    \<and> primary_key w_moved = Some ''id''
    \<and> get_row w_moved (VInt 7) = Some [(''id'', VInt 1)]
    \<and> delete_row w_moved (VInt 7) = (w_deleted, Inr True)
    \<and> passes_validation w_deleted [(''id'', VInt 1)]
    \<and> no_unique_collision w_deleted [(''id'', VInt 1)]
    \<and> insert_row w_deleted [(''id'', VInt 1)]
         = (w_deleted, Inl (DuplicateKeyError ''id'' (VInt 1)))"
  proof -
    have "Table ''w'' w_columns = Inr (w_table [] {} [])" by code_simp
    moreover have "insert_row (w_table [] {} []) [(''id'', VInt 1), (''_row_id'', VInt 9)]
                     = (w_one, Inr 0)" by code_simp
    moreover have "update_row w_one (VInt 0) [(''_row_id'', VInt 7)] = (w_moved, Inr True)"
      by code_simp
    moreover have "primary_key w_moved = Some ''id''" by code_simp
    moreover have "get_row w_moved (VInt 7) = Some [(''id'', VInt 1)]" by code_simp
    moreover have "delete_row w_moved (VInt 7) = (w_deleted, Inr True)" by code_simp
    moreover have "passes_validation w_deleted [(''id'', VInt 1)]" by code_simp
    moreover have "no_unique_collision w_deleted [(''id'', VInt 1)]" by code_simp
    moreover have "insert_row w_deleted [(''id'', VInt 1)]
         = (w_deleted, Inl (DuplicateKeyError ''id'' (VInt 1)))" by code_simp
    ultimately show ?thesis by simp
  qed
  show ?thesis using a b c d by blast
qed

text \<open>
  C4, amended. Take a reachable table whose column names are pairwise distinct and
  none of which is \<open>_row_id\<close>, with primary key \<open>c\<close>, and a row that names only
  known columns and whose values all pass validation, and whose value for \<open>c\<close> is not
  null and equals that of the live row with identifier \<open>i\<close>. Inserting it fails with
  a duplicate-key error on \<open>c\<close> and changes nothing. After \<open>delete_row\<close> succeeds on
  \<open>i\<close>, inserting the row succeeds, provided it collides with no live row on another
  unique column.
\<close>

theorem primary_key_duplicate_then_reuse:
  assumes r: "reachable t" and vs: "valid_schema t" and pk: "primary_key t = Some c"
    and gr: "get_row t (VInt i) = Some old" and x: "map_of old c = Some x"
    and pv: "passes_validation t row_data"
    and nn: "row_get row_data c \<noteq> VNull" and eq: "py_eq x (row_get row_data c)"
  shows "insert_row t row_data = (t, Inl (DuplicateKeyError c (row_get row_data c)))
       \<and> (\<forall>t1. delete_row t (VInt i) = (t1, Inr True) \<and> no_unique_collision t1 row_data
              \<longrightarrow> (\<exists>t2. insert_row t1 row_data = (t2, Inr (next_row_id t1))))"
proof -
  let ?y = "row_get row_data c"
  let ?cr = "map (\<lambda>entry. (fst entry, row_get row_data (fst entry))) (columns t)"
  have inv: "table_inv t" using r vs by (rule reachable_inv)
  then have so: "schema_ok t" and ro: "rows_ok t" and io: "indexes_ok t" and co: "constraints_ok t"
    by (simp_all add: table_inv_def)
  have lr: "live_row t (VInt i) old" using gr get_row_live [OF ro] by simp
  have known: "list_all (\<lambda>k. map_of (columns t) k \<noteq> None) (map fst row_data)"
    using pv by (simp add: passes_validation_def)
  have b: "build_complete_row (columns t) row_data = Inr ?cr"
    using pv build_complete_row_ok by (simp add: passes_validation_def)
  have cin: "c \<in> set (map fst (columns t))" using co pk by (simp add: constraints_ok_def)
  then have cne: "c \<noteq> []" using so by (auto simp: schema_ok_def)
  obtain col where col: "(c, col) \<in> set (columns t)" using cin by auto
  then have "is_primary_key col" using co pk by (fastforce simp: constraints_ok_def)
  then have u: "is_unique col" by (simp add: is_unique_def)
  obtain idx where idx: "map_of (indexes t) c = Some idx"
    and le: "\<And>v. length (HashIndex_search idx v) \<le> 1"
    using co col u by (fastforce simp: constraints_ok_def)
  have "(c, idx) \<in> set (indexes t)" using idx by (rule map_of_SomeD)
  then have ok: "index_ok t c idx" using indexes_ok_entry [OF io] by blast
  have crc: "map_of ?cr c = Some ?y" using cin by (rule map_of_complete_row)
  have xn: "x \<noteq> VNull" using eq nn py_eq_null_iff [of ?y] by auto
  have hold: "VInt i \<in> holders t c ?y"
    using lr x xn eq by (auto simp: holders_def)
  then have "VInt i \<in> set (HashIndex_search idx ?y)" using ok by (simp add: index_ok_def)
  then obtain z zs where zs: "HashIndex_search idx ?y = z # zs"
    by (cases "HashIndex_search idx ?y") auto
  have "check_primary_key t ?cr = Some (DuplicateKeyError c ?y)"
    using pk cne crc nn idx zs by (simp add: check_primary_key_def find_by_index_def)
  from insert_row_duplicate_pk [OF known b this]
  have first: "insert_row t row_data = (t, Inl (DuplicateKeyError c ?y))" .
  have only: "holders t c ?y = {VInt i}"
  proof -
    have "set (HashIndex_search idx ?y) = holders t c ?y" using ok by (simp add: index_ok_def)
    moreover have "zs = []" using le [of ?y] zs by simp
    ultimately have hz: "holders t c ?y = {z}" using zs by simp
    then have "VInt i = z" using hold by (metis singletonD)
    then show ?thesis using hz by simp
  qed
  have second: "\<exists>t2. insert_row t1 row_data = (t2, Inr (next_row_id t1))"
    if d: "delete_row t (VInt i) = (t1, Inr True)" and nc: "no_unique_collision t1 row_data" for t1
  proof -
    from delete_row_cases [OF table_inv_keys_ok [OF inv] d] obtain r' where
      t1: "t1 = deleted_state t (VInt i) r'" by auto
    have inv1: "table_inv t1" using table_inv_delete_row [OF inv d] .
    then have ro1: "rows_ok t1" and io1: "indexes_ok t1" by (simp_all add: table_inv_def)
    have c1: "columns t1 = columns t" and p1: "primary_key t1 = Some c"
      using t1 pk by simp_all
    have h1: "holders t1 c ?y = {}"
      using holders_deleted [of t "VInt i" r' c ?y] only t1 by simp
    have known1: "list_all (\<lambda>k. map_of (columns t1) k \<noteq> None) (map fst row_data)"
      using known c1 by simp
    have b1: "build_complete_row (columns t1) row_data = Inr ?cr" using b c1 by simp
    have pk1: "check_primary_key t1 ?cr = None"
    proof (cases "map_of (indexes t1) c")
      case None
      then show ?thesis using p1 cne crc nn by (simp add: check_primary_key_def find_by_index_def)
    next
      case (Some idx1)
      then have "(c, idx1) \<in> set (indexes t1)" by (rule map_of_SomeD)
      then have "index_ok t1 c idx1" using indexes_ok_entry [OF io1] by blast
      then have "set (HashIndex_search idx1 ?y) = {}" using h1 by (simp add: index_ok_def)
      then show ?thesis
        using p1 cne crc nn Some by (simp add: check_primary_key_def find_by_index_def)
    qed
    have free: "\<forall>entry \<in> set (columns t1). is_unique (snd entry) \<and> \<not> is_primary_key (snd entry)
                 \<longrightarrow> holders t1 (fst entry) (row_get row_data (fst entry)) = {}"
      using nc by (auto simp: no_unique_collision_def list_all_iff value_held_holders [OF ro1])
    have vals: "\<forall>entry \<in> set (columns t1). map_of ?cr (fst entry) = Some (row_get row_data (fst entry))"
      using c1 map_of_complete_row [of _ "columns t" row_data] by auto
    have un1: "check_unique t1 (columns t1) ?cr = None"
      using check_unique_free [OF io1 free vals] .
    show ?thesis
      using insert_row_succeeds [OF table_inv_keys_ok [OF inv1] known1 b1 pk1 un1] by blast
  qed
  show ?thesis using first second by blast
qed

theorem primary_key_duplicate_then_reuse_witness:
  "reachable example_two \<and> valid_schema example_two \<and> primary_key example_two = Some ''id''
   \<and> get_row example_two (VInt 0) = Some [(''id'', VInt 1), (''e'', VStr ''a'')]
   \<and> passes_validation example_two [(''id'', VInt 1), (''e'', VStr ''c'')]
   \<and> delete_row example_two (VInt 0) = (example_deleted, Inr True)
   \<and> no_unique_collision example_deleted [(''id'', VInt 1), (''e'', VStr ''c'')]
   \<and> insert_row example_two [(''id'', VInt 1), (''e'', VStr ''c'')]
        = (example_two, Inl (DuplicateKeyError ''id'' (VInt 1)))
   \<and> (\<exists>t2. insert_row example_deleted [(''id'', VInt 1), (''e'', VStr ''c'')] = (t2, Inr 2))"
proof -
  let ?rd = "[(''id'', VInt 1), (''e'', VStr ''c'')]"
  let ?old = "[(''id'', VInt 1), (''e'', VStr ''a'')]"
  have pk: "primary_key example_two = Some ''id''" by code_simp
  have gr: "get_row example_two (VInt 0) = Some ?old" by code_simp
  have x: "map_of ?old ''id'' = Some (VInt 1)" by simp
  have pv: "passes_validation example_two ?rd" by code_simp
  have g: "row_get ?rd ''id'' = VInt 1" by code_simp
  have nn: "row_get ?rd ''id'' \<noteq> VNull" unfolding g by simp
  have eq: "py_eq (VInt 1) (row_get ?rd ''id'')" unfolding g by simp
  have nc: "no_unique_collision example_deleted ?rd" by code_simp
  have n: "next_row_id example_deleted = 2" by code_simp
  note th = primary_key_duplicate_then_reuse
              [OF example_two_reachable example_two_valid pk gr x pv nn eq]
  have a: "insert_row example_two ?rd = (example_two, Inl (DuplicateKeyError ''id'' (VInt 1)))"
    using th g by simp
  have b: "\<exists>t2. insert_row example_deleted ?rd = (t2, Inr 2)"
    using th example_delete nc n by metis
  show ?thesis
    using example_two_reachable example_two_valid pk gr pv example_delete nc a b by blast
qed

end
